theory Spec2Isabelle
  imports Main "HOL-Library.Sublist" "HOL-Library.Monad_Syntax"
begin

section \<open>Strings and the regular-expression primitives of the source\<close>

text \<open>
  The source is TypeScript (\<^verbatim>\<open>src/core/SqlComposer.ts\<close>). Its strings are modelled as
  \<^typ>\<open>string\<close>, read as sequences of code units below 256 (Latin-1). A regular
  expression of the source is modelled by a function that tries to match it at the
  start of a text and returns what the match object holds together with the text
  after the match. Every quantifier of the four patterns is followed by something its
  own character class excludes (\<^verbatim>\<open>\s+\<close> by a letter, \<^verbatim>\<open>[^"']+\<close> by a quote,
  \<^verbatim>\<open>[^>]*\<close> by \<^verbatim>\<open>>\<close>), so a greedy quantifier takes its whole run and giving
  characters back never helps; the one place where backtracking decides, the
  \<^verbatim>\<open>[^>]*id\<close> of the statement pattern, is written out.
\<close>

definition isSpace :: "char \<Rightarrow> bool" where
  \<comment> \<open>\<^verbatim>\<open>\s\<close>, and the characters \<^verbatim>\<open>trim()\<close> strips: TAB, LF, VT, FF, CR, SP, NBSP\<close>
  "isSpace c \<longleftrightarrow> c \<in> set [CHR 0x09, CHR 0x0A, CHR 0x0B, CHR 0x0C, CHR 0x0D, CHR 0x20, CHR 0xA0]"

definition isQuote :: "char \<Rightarrow> bool" where
  \<comment> \<open>\<^verbatim>\<open>["']\<close>\<close>
  "isQuote c \<longleftrightarrow> c = CHR 0x22 \<or> c = CHR 0x27"

definition canonicalize :: "char \<Rightarrow> char" where
  \<comment> \<open>the \<^verbatim>\<open>i\<close> flag compares characters after \<^verbatim>\<open>toUpperCase\<close>: a-z and the
      Latin-1 letters 0xE0-0xFE (without the division sign 0xF7) move down by 32\<close>
  "canonicalize c =
     (let n = (of_char c :: nat)
      in if (97 \<le> n \<and> n \<le> 122) \<or> (224 \<le> n \<and> n \<le> 254 \<and> n \<noteq> 247)
         then char_of (n - 32) else c)"

fun stripPrefix :: "string \<Rightarrow> string \<Rightarrow> string option" where
  \<comment> \<open>a literal, matched exactly: the text after it\<close>
  "stripPrefix [] s = Some s"
| "stripPrefix (p # ps) [] = None"
| "stripPrefix (p # ps) (c # cs) = (if p = c then stripPrefix ps cs else None)"

fun stripPrefixCI :: "string \<Rightarrow> string \<Rightarrow> string option" where
  \<comment> \<open>a literal under the \<^verbatim>\<open>i\<close> flag\<close>
  "stripPrefixCI [] s = Some s"
| "stripPrefixCI (p # ps) [] = None"
| "stripPrefixCI (p # ps) (c # cs) =
     (if canonicalize p = canonicalize c then stripPrefixCI ps cs else None)"

fun splitFirst :: "string \<Rightarrow> string \<Rightarrow> (string \<times> string) option" where
  \<comment> \<open>the first occurrence of a literal: the text before it and the text after it
      (\<^verbatim>\<open>indexOf\<close>, and a lazy \<^verbatim>\<open>[\s\S]*?\<close> in front of a literal)\<close>
  "splitFirst pat [] = (if pat = [] then Some ([], []) else None)"
| "splitFirst pat (c # cs) =
     (case stripPrefix pat (c # cs) of
        Some r \<Rightarrow> Some ([], r)
      | None \<Rightarrow> map_option (\<lambda>(b, a). (c # b, a)) (splitFirst pat cs))"

fun splitFirstCI :: "string \<Rightarrow> string \<Rightarrow> (string \<times> string) option" where
  "splitFirstCI pat [] = (if pat = [] then Some ([], []) else None)"
| "splitFirstCI pat (c # cs) =
     (case stripPrefixCI pat (c # cs) of
        Some r \<Rightarrow> Some ([], r)
      | None \<Rightarrow> map_option (\<lambda>(b, a). (c # b, a)) (splitFirstCI pat cs))"

definition trim :: "string \<Rightarrow> string" where
  "trim s = rev (dropWhile isSpace (rev (dropWhile isSpace s)))"

text \<open>
  The successive matches of a global pattern in a text (\<^verbatim>\<open>replace\<close> with the
  \<^verbatim>\<open>g\<close> flag, and the \<^verbatim>\<open>while ((match = re.exec(s)) !== null)\<close> loops): the
  search tries each position from the left and resumes after a match. The result is
  the list of matches, each with the unmatched text in front of it, and the unmatched
  text after the last match. Every match of the patterns below contains at least its
  opening \<^verbatim>\<open><\<close>, so the search always moves on.
\<close>

function regexScan :: "(string \<Rightarrow> ('a \<times> string) option) \<Rightarrow> string \<Rightarrow> (string \<times> 'a) list \<times> string" where
  "regexScan m [] = ([], [])"
| "regexScan m (c # cs) =
     (case m (c # cs) of
        Some (x, rest) \<Rightarrow>
          if length rest < length (c # cs)
          then (case regexScan m rest of (ms, g) \<Rightarrow> (([], x) # ms, g))
          else ([], c # cs)
      | None \<Rightarrow>
          (case regexScan m cs of
             ([], g) \<Rightarrow> ([], c # g)
           | ((g0, y) # ms, g) \<Rightarrow> ((c # g0, y) # ms, g)))"
  by pat_completeness auto
termination
  by (relation "measure (\<lambda>(m, s). length s)") auto

section \<open>Comment stripping\<close>

definition matchComment :: "string \<Rightarrow> (string \<times> string) option" where
  \<comment> \<open>\<^verbatim>\<open>/<!--[\s\S]*?-->/\<close>: the matched text and the text after it\<close>
  "matchComment s =
     (case stripPrefix ''<!--'' s of
        None \<Rightarrow> None
      | Some s1 \<Rightarrow>
          (case splitFirst ''-->'' s1 of
             None \<Rightarrow> None
           | Some (body, rest) \<Rightarrow> Some (''<!--'' @ body @ ''-->'', rest)))"

definition newlineCount :: "string \<Rightarrow> nat" where
  \<comment> \<open>\<^verbatim>\<open>(match.match(/\n/g) || []).length\<close>\<close>
  "newlineCount s = length (filter (\<lambda>c. c = CHR 0x0A) s)"

definition removeXmlComments :: "string \<Rightarrow> string" where
  "removeXmlComments content =
     (if content = [] then []
      else case regexScan matchComment content of
             (ms, g) \<Rightarrow>
               concat (map (\<lambda>(gap, match). gap @ replicate (newlineCount match) (CHR 0x0A)) ms) @ g)"

definition spaces1 :: "string \<Rightarrow> string option" where
  \<comment> \<open>\<^verbatim>\<open>\s+\<close>\<close>
  "spaces1 s = (case s of [] \<Rightarrow> None | c # cs \<Rightarrow> if isSpace c then Some (dropWhile isSpace cs) else None)"

definition spaces0 :: "string \<Rightarrow> string" where
  \<comment> \<open>\<^verbatim>\<open>\s*\<close>\<close>
  "spaces0 s = dropWhile isSpace s"

definition expectChar :: "char \<Rightarrow> string \<Rightarrow> string option" where
  "expectChar x s = (case s of [] \<Rightarrow> None | c # cs \<Rightarrow> if c = x then Some cs else None)"

definition expectQuote :: "string \<Rightarrow> string option" where
  "expectQuote s = (case s of [] \<Rightarrow> None | c # cs \<Rightarrow> if isQuote c then Some cs else None)"

definition optionalSlash :: "string \<Rightarrow> string" where
  \<comment> \<open>\<^verbatim>\<open>\/?\<close>\<close>
  "optionalSlash s = (case s of [] \<Rightarrow> [] | c # cs \<Rightarrow> if c = CHR ''/'' then cs else c # cs)"

section \<open>Inclusion markers and their resolution\<close>

definition matchInclude :: "string \<Rightarrow> ((string \<times> string) \<times> string) option" where
  \<comment> \<open>\<^verbatim>\<open>/<include\s+refid\s*=\s*["']([^"']+)["']\s*\/?>/gi\<close> at the start of the text:
      \<^verbatim>\<open>(match[0], match[1])\<close> and the text after the match\<close>
  "matchInclude s =
     stripPrefixCI ''<include'' s \<bind> spaces1 \<bind> stripPrefixCI ''refid'' \<bind>
     (\<lambda>s3. expectChar (CHR ''='') (spaces0 s3)) \<bind>
     (\<lambda>s4. expectQuote (spaces0 s4)) \<bind>
     (\<lambda>s5. let refId = takeWhile (\<lambda>c. \<not> isQuote c) s5
           in if refId = [] then None
              else expectQuote (dropWhile (\<lambda>c. \<not> isQuote c) s5) \<bind>
                   (\<lambda>s6. expectChar (CHR ''>'') (optionalSlash (spaces0 s6))) \<bind>
                   (\<lambda>rest. Some ((take (length s - length rest) s, refId), rest)))"

definition includeMatches :: "string \<Rightarrow> (string \<times> string) list" where
  \<comment> \<open>the match objects the \<^verbatim>\<open>exec\<close> loop sees, in order: \<^verbatim>\<open>(includeTag, refId)\<close>\<close>
  "includeMatches sql = map snd (fst (regexScan matchInclude sql))"

fun getSubstitution :: "string \<Rightarrow> string \<Rightarrow> string \<Rightarrow> string \<Rightarrow> string" where
  \<comment> \<open>the replacement text of \<^verbatim>\<open>String.prototype.replace\<close> for a string pattern:
      \<^verbatim>\<open>$$\<close> is a dollar, \<^verbatim>\<open>$&\<close> the matched text, \<^verbatim>\<open>$`\<close> the text before the
      match, \<^verbatim>\<open>$'\<close> the text after it; there are no groups, so every other
      \<^verbatim>\<open>$\<close> stands for itself\<close>
  "getSubstitution matched pre post [] = []"
| "getSubstitution matched pre post [c] = [c]"
| "getSubstitution matched pre post (c # d # t) =
     (if c = CHR ''$'' \<and> d = CHR ''$'' then CHR ''$'' # getSubstitution matched pre post t
      else if c = CHR ''$'' \<and> d = CHR ''&'' then matched @ getSubstitution matched pre post t
      else if c = CHR ''$'' \<and> d = CHR 0x60 then pre @ getSubstitution matched pre post t
      else if c = CHR ''$'' \<and> d = CHR 0x27 then post @ getSubstitution matched pre post t
      else c # getSubstitution matched pre post (d # t))"

definition jsReplace :: "string \<Rightarrow> string \<Rightarrow> string \<Rightarrow> string" where
  \<comment> \<open>\<^verbatim>\<open>str.replace(searchString, replaceValue)\<close> with two strings: the first
      occurrence only, the text unchanged when there is none\<close>
  "jsReplace str searchString replaceValue =
     (case splitFirst searchString str of
        None \<Rightarrow> str
      | Some (pre, post) \<Rightarrow>
          pre @ getSubstitution searchString pre post replaceValue @ post)"

definition circularNote :: "string \<Rightarrow> string" where
  "circularNote refId = ''/* Circular reference detected: '' @ refId @ '' */''"

definition notFoundNote :: "string \<Rightarrow> string" where
  "notFoundNote refId = ''/* Fragment not found: '' @ refId @ '' */''"

type_synonym fragments = "string \<rightharpoonup> string"

definition replaceInclude ::
  "(string \<Rightarrow> string set \<Rightarrow> string option) \<Rightarrow> fragments \<Rightarrow> string set \<Rightarrow> string \<times> string \<Rightarrow> string \<Rightarrow> string option" where
  \<comment> \<open>the body of the \<^verbatim>\<open>while\<close> loop for one match; \<open>recurse\<close> is the recursive call.
      \<^verbatim>\<open>if (fragmentContent)\<close> is false for a missing id and for an empty content.\<close>
  "replaceInclude recurse frags visited m resolved =
     (case m of (includeTag, refId) \<Rightarrow>
        if refId \<in> visited then Some (jsReplace resolved includeTag (circularNote refId))
        else (case frags refId of
                Some fragmentContent \<Rightarrow>
                  if fragmentContent \<noteq> []
                  then (case recurse fragmentContent (insert refId visited) of
                          None \<Rightarrow> None
                        | Some resolvedFragment \<Rightarrow> Some (jsReplace resolved includeTag resolvedFragment))
                  else Some (jsReplace resolved includeTag (notFoundNote refId))
              | None \<Rightarrow> Some (jsReplace resolved includeTag (notFoundNote refId))))"

fun resolveLoop ::
  "(string \<Rightarrow> string set \<Rightarrow> string option) \<Rightarrow> fragments \<Rightarrow> string set \<Rightarrow> (string \<times> string) list \<Rightarrow> string \<Rightarrow> string option" where
  "resolveLoop recurse frags visited [] resolved = Some resolved"
| "resolveLoop recurse frags visited (m # ms) resolved =
     (case replaceInclude recurse frags visited m resolved of
        None \<Rightarrow> None
      | Some resolved' \<Rightarrow> resolveLoop recurse frags visited ms resolved')"

text \<open>
  \<^verbatim>\<open>resolveIncludes\<close> calls itself for every fragment it expands and once more when
  the text it built still holds a marker. The first argument bounds the depth of these
  calls, as the call stack of the engine does: \<open>None\<close> is the \<^verbatim>\<open>RangeError\<close> of a
  stack that is used up, and a call that returns for every large enough bound is a call
  that terminates.
\<close>

primrec resolveIncludes :: "nat \<Rightarrow> string \<Rightarrow> fragments \<Rightarrow> string set \<Rightarrow> string option" where
  "resolveIncludes 0 = (\<lambda>sql frags visited. None)"
| "resolveIncludes (Suc depth) = (\<lambda>sql frags visited.
     let ms = includeMatches sql
     in case resolveLoop (\<lambda>s v. resolveIncludes depth s frags v) frags visited ms sql of
          None \<Rightarrow> None
        | Some resolved \<Rightarrow>
            if ms \<noteq> [] \<and> includeMatches resolved \<noteq> []
            then resolveIncludes depth resolved frags visited
            else Some resolved)"

section \<open>Fragments and statements of a document\<close>

definition matchSqlFragment :: "string \<Rightarrow> ((string \<times> string) \<times> string) option" where
  \<comment> \<open>\<^verbatim>\<open>/<sql\s+id\s*=\s*["']([^"']+)["'][^>]*>([\s\S]*?)<\/sql>/gi\<close>:
      \<^verbatim>\<open>(match[1], match[2])\<close> and the text after the match\<close>
  "matchSqlFragment s =
     stripPrefixCI ''<sql'' s \<bind> spaces1 \<bind> stripPrefixCI ''id'' \<bind>
     (\<lambda>s3. expectChar (CHR ''='') (spaces0 s3)) \<bind>
     (\<lambda>s4. expectQuote (spaces0 s4)) \<bind>
     (\<lambda>s5. let ident = takeWhile (\<lambda>c. \<not> isQuote c) s5
           in if ident = [] then None
              else expectQuote (dropWhile (\<lambda>c. \<not> isQuote c) s5) \<bind>
                   (\<lambda>s6. expectChar (CHR ''>'') (dropWhile (\<lambda>c. c \<noteq> CHR ''>'') s6)) \<bind>
                   splitFirstCI ''</sql>'' \<bind>
                   (\<lambda>(body, rest). Some ((ident, body), rest)))"

definition fragmentDeclarations :: "string \<Rightarrow> (string \<times> string) list" where
  \<comment> \<open>what the \<^verbatim>\<open>exec\<close> loop of \<^verbatim>\<open>extractSqlFragments\<close> passes to
      \<^verbatim>\<open>fragments.set\<close>, in document order: the id and the trimmed content\<close>
  "fragmentDeclarations content =
     map (\<lambda>(gap, ident, body). (ident, trim body))
       (fst (regexScan matchSqlFragment (removeXmlComments content)))"

definition extractSqlFragments :: "string \<Rightarrow> fragments" where
  "extractSqlFragments content =
     fold (\<lambda>(ident, body) frags. frags(ident \<mapsto> body)) (fragmentDeclarations content) Map.empty"

definition escapeRegex :: "string \<Rightarrow> string" where
  \<comment> \<open>\<^verbatim>\<open>str.replace(/[.*+?^${}()|[\]\\]/g, '\\$&')\<close>\<close>
  "escapeRegex str =
     concat (map (\<lambda>c. if c \<in> set ''.*+?^${}()|[]'' \<or> c = CHR 0x5C then [CHR 0x5C, c] else [c]) str)"

fun matchPatternText :: "string \<Rightarrow> string \<Rightarrow> string option" where
  \<comment> \<open>a pattern made of plain characters and of escaped characters, under the
      \<^verbatim>\<open>i\<close> flag: a backslash makes the character after it stand for itself\<close>
  "matchPatternText [] s = Some s"
| "matchPatternText [p] s = stripPrefixCI [p] s"
| "matchPatternText (p # q # ps) s =
     (if p = CHR 0x5C then stripPrefixCI [q] s \<bind> matchPatternText ps
      else stripPrefixCI [p] s \<bind> matchPatternText (q # ps))"

definition matchKind :: "string \<Rightarrow> (string \<times> string) option" where
  \<comment> \<open>\<^verbatim>\<open>(select|insert|update|delete)\<close>: the captured text and the text after it\<close>
  "matchKind s =
     (case List.find (\<lambda>k. stripPrefixCI k s \<noteq> None) [''select'', ''insert'', ''update'', ''delete''] of
        None \<Rightarrow> None
      | Some k \<Rightarrow> Some (take (length k) s, drop (length k) s))"

definition matchFromId :: "string \<Rightarrow> string \<Rightarrow> string \<Rightarrow> string option" where
  \<comment> \<open>\<^verbatim>\<open>id\s*=\s*["']${escapeRegex(statementId)}["'][^>]*>([\s\S]*?)<\/\1>\<close>, where
      \<open>kind\<close> is the text group 1 captured: \<^verbatim>\<open>match[2]\<close>\<close>
  "matchFromId kind statementId s =
     stripPrefixCI ''id'' s \<bind>
     (\<lambda>s1. expectChar (CHR ''='') (spaces0 s1)) \<bind>
     (\<lambda>s2. expectQuote (spaces0 s2)) \<bind>
     matchPatternText (escapeRegex statementId) \<bind>
     expectQuote \<bind>
     (\<lambda>s5. expectChar (CHR ''>'') (dropWhile (\<lambda>c. c \<noteq> CHR ''>'') s5)) \<bind>
     splitFirstCI (''</'' @ kind @ ''>'') \<bind>
     (\<lambda>(body, rest). Some body)"

fun longestFirst :: "(string \<Rightarrow> 'a option) \<Rightarrow> string \<Rightarrow> nat \<Rightarrow> 'a option" where
  \<comment> \<open>a greedy run of at most \<open>k\<close> characters in front of \<open>p\<close>: the longest run is
      tried first, then one character less, down to none\<close>
  "longestFirst p s 0 = p s"
| "longestFirst p s (Suc k) =
     (case p (drop (Suc k) s) of Some r \<Rightarrow> Some r | None \<Rightarrow> longestFirst p s k)"

definition matchStatement :: "string \<Rightarrow> string \<Rightarrow> string option" where
  \<comment> \<open>the statement pattern at the start of the text; \<^verbatim>\<open>[^>]*\<close> may run up to the
      next \<^verbatim>\<open>>\<close>\<close>
  "matchStatement statementId s =
     expectChar (CHR ''<'') s \<bind> matchKind \<bind>
     (\<lambda>(kind, s1). spaces1 s1 \<bind>
        (\<lambda>s2. longestFirst (matchFromId kind statementId) s2
                (length (takeWhile (\<lambda>c. c \<noteq> CHR ''>'') s2))))"

fun firstMatch :: "(string \<Rightarrow> 'a option) \<Rightarrow> string \<Rightarrow> 'a option" where
  \<comment> \<open>\<^verbatim>\<open>str.match(re)\<close> without the \<^verbatim>\<open>g\<close> flag: the leftmost match\<close>
  "firstMatch m [] = m []"
| "firstMatch m (c # cs) = (case m (c # cs) of Some r \<Rightarrow> Some r | None \<Rightarrow> firstMatch m cs)"

definition extractStatementContent :: "string \<Rightarrow> string \<Rightarrow> string option" where
  "extractStatementContent content statementId =
     map_option trim (firstMatch (matchStatement statementId) (removeXmlComments content))"

section \<open>Composing a statement\<close>

type_synonym fileSystem = "string \<rightharpoonup> string"

definition readFile :: "fileSystem \<Rightarrow> string \<Rightarrow> string" where
  \<comment> \<open>\<^verbatim>\<open>fileUtils.readFile\<close>: a file that cannot be read gives the empty text\<close>
  "readFile fs filePath = (case fs filePath of Some content \<Rightarrow> content | None \<Rightarrow> [])"

definition composeError :: "string" where
  "composeError = ''[SqlComposer] Error composing SQL:''"

definition composeSql :: "nat \<Rightarrow> fileSystem \<Rightarrow> string \<Rightarrow> string \<Rightarrow> string option \<times> string list" where
  \<comment> \<open>the value the promise resolves to (\<open>None\<close> is \<^verbatim>\<open>null\<close>) and the lines written
      with \<^verbatim>\<open>console.error\<close>; \<open>depth\<close> is the depth of calls the stack allows.
      \<^verbatim>\<open>if (!statementContent)\<close> holds for \<^verbatim>\<open>null\<close> and for the empty text.\<close>
  "composeSql depth fs xmlFilePath statementId =
     (let content = readFile fs xmlFilePath;
          frags = extractSqlFragments content
      in case extractStatementContent content statementId of
           None \<Rightarrow> (None, [])
         | Some statementContent \<Rightarrow>
             if statementContent = [] then (None, [])
             else (case resolveIncludes depth statementContent frags {} of
                     Some resolved \<Rightarrow> (Some resolved, [])
                   | None \<Rightarrow> (None, [composeError])))"

section \<open>The LRU cache\<close>

text \<open>
  Modelled from the spec: the LRU cache of the mapping cache. Its implementation
  (\<^verbatim>\<open>FileMapper.ts\<close>) is not among the sources; the definitions below follow
  section 4.1 of the specification: \<^verbatim>\<open>put\<close> inserts or updates and marks the entry
  most recently used, \<^verbatim>\<open>get\<close> promotes the entry it finds, and the least recently
  used entry is evicted as soon as the size exceeds the capacity.
\<close>

record ('k, 'v) lruCache =
  capacity :: nat
  entries :: "('k \<times> 'v) list"

definition emptyCache :: "nat \<Rightarrow> ('k, 'v) lruCache" where
  \<comment> \<open>Modelled from the spec: a new cache of the given capacity; \<open>entries\<close> is kept
      most recently used first\<close>
  "emptyCache n = \<lparr>capacity = n, entries = []\<rparr>"

definition lruSize :: "('k, 'v) lruCache \<Rightarrow> nat" where
  \<comment> \<open>Modelled from the spec: \<^verbatim>\<open>size()\<close>\<close>
  "lruSize c = length (entries c)"

definition evictLeastRecentlyUsed :: "('k, 'v) lruCache \<Rightarrow> ('k, 'v) lruCache" where
  \<comment> \<open>Modelled from the spec: \<^verbatim>\<open>evictLeastRecentlyUsed()\<close> drops the entry touched
      longest ago\<close>
  "evictLeastRecentlyUsed c = c\<lparr>entries := butlast (entries c)\<rparr>"

definition promote :: "'k \<Rightarrow> 'v \<Rightarrow> ('k, 'v) lruCache \<Rightarrow> ('k, 'v) lruCache" where
  \<comment> \<open>Modelled from the spec: the touched entry moves to the most recently used
      position; an existing key is not counted twice\<close>
  "promote k v c = c\<lparr>entries := (k, v) # filter (\<lambda>e. fst e \<noteq> k) (entries c)\<rparr>"

definition lruPut :: "'k \<Rightarrow> 'v \<Rightarrow> ('k, 'v) lruCache \<Rightarrow> ('k, 'v) lruCache" where
  \<comment> \<open>Modelled from the spec: \<^verbatim>\<open>put(key, value)\<close>, with the automatic eviction\<close>
  "lruPut k v c =
     (let c' = promote k v c
      in if lruSize c' > capacity c' then evictLeastRecentlyUsed c' else c')"

definition lruGet :: "'k \<Rightarrow> ('k, 'v) lruCache \<Rightarrow> 'v option \<times> ('k, 'v) lruCache" where
  \<comment> \<open>Modelled from the spec: \<^verbatim>\<open>get(key)\<close>, the value or absence, and the cache after
      the read\<close>
  "lruGet k c =
     (case map_of (entries c) k of None \<Rightarrow> (None, c) | Some v \<Rightarrow> (Some v, promote k v c))"

definition putAll :: "('k \<times> 'v) list \<Rightarrow> ('k, 'v) lruCache \<Rightarrow> ('k, 'v) lruCache" where
  \<comment> \<open>Modelled from the spec: a run of inserts with no read in between\<close>
  "putAll kvs c = fold (\<lambda>(k, v). lruPut k v) kvs c"

section \<open>Notions used to state the claims\<close>

subsection \<open>Markers as the pattern reads them\<close>

definition ciEqual :: "string \<Rightarrow> string \<Rightarrow> bool" where
  \<comment> \<open>equal up to the case of letters\<close>
  "ciEqual a b \<longleftrightarrow> map canonicalize a = map canonicalize b"

definition isIncludeMarker :: "string \<Rightarrow> bool" where
  \<comment> \<open>the texts of the form \<^verbatim>\<open><include refid="..."/>\<close>, as the pattern of the source
      reads them: letters in either case, either quote, blanks where it has \<^verbatim>\<open>\s\<close>\<close>
  "isIncludeMarker m \<longleftrightarrow>
     (\<exists>name w1 attr w2 w3 q1 refId q2 w4 slash.
        m = name @ w1 @ attr @ w2 @ ''='' @ w3 @ [q1] @ refId @ [q2] @ w4 @ slash @ ''>''
        \<and> ciEqual name ''<include'' \<and> w1 \<noteq> [] \<and> list_all isSpace w1 \<and> ciEqual attr ''refid''
        \<and> list_all isSpace w2 \<and> list_all isSpace w3 \<and> isQuote q1
        \<and> refId \<noteq> [] \<and> list_all (\<lambda>c. \<not> isQuote c) refId \<and> isQuote q2
        \<and> list_all isSpace w4 \<and> (slash = [] \<or> slash = ''/''))"

definition holdsMarker :: "string \<Rightarrow> bool" where
  \<comment> \<open>some part of the text is an inclusion marker\<close>
  "holdsMarker s \<longleftrightarrow> (\<exists>pre m post. s = pre @ m @ post \<and> isIncludeMarker m)"

definition beginsMarker :: "string \<Rightarrow> bool" where
  \<comment> \<open>the text begins with an inclusion marker, or is the beginning of one\<close>
  "beginsMarker u \<longleftrightarrow> u \<noteq> [] \<and> (\<exists>m. isIncludeMarker m \<and> (prefix u m \<or> prefix m u))"

definition quiet :: "string \<Rightarrow> bool" where
  \<comment> \<open>at no position of the text does a marker begin, nor the beginning of one that runs
      to the end of the text: whatever text is put behind it, no match starts inside\<close>
  "quiet s \<longleftrightarrow> (\<forall>u. suffix u s \<longrightarrow> \<not> beginsMarker u)"

text \<open>
  A condition that can be computed and is enough for a text to be quiet: at no position
  does the text begin \<^verbatim>\<open><include\<close>, or a part of it that runs to the end of the text.
\<close>

fun compatCI :: "string \<Rightarrow> string \<Rightarrow> bool" where
  \<comment> \<open>the text agrees with the pattern, under the \<^verbatim>\<open>i\<close> flag, as far as both go\<close>
  "compatCI [] s = True"
| "compatCI (p # ps) [] = True"
| "compatCI (p # ps) (c # cs) = (canonicalize p = canonicalize c \<and> compatCI ps cs)"

fun inert :: "string \<Rightarrow> bool" where
  \<comment> \<open>at no position does the text begin \<^verbatim>\<open><include\<close>, or a part of it that runs to
      the end of the text\<close>
  "inert [] = True"
| "inert (c # cs) = (\<not> compatCI ''<include'' (c # cs) \<and> inert cs)"

subsection \<open>Replacement patterns\<close>

fun noPattern :: "string \<Rightarrow> bool" where
  \<comment> \<open>no \<^verbatim>\<open>$\<close> stands in front of \<^verbatim>\<open>$\<close>, \<^verbatim>\<open>&\<close>, a backquote or a quote: as a
      replacement string the text stands for itself\<close>
  "noPattern [] = True"
| "noPattern [c] = True"
| "noPattern (c # d # t) = ((c = CHR ''$'' \<longrightarrow> d \<notin> set [CHR ''$'', CHR ''&'', CHR 0x60, CHR 0x27]) \<and> noPattern (d # t))"

fun plain :: "string \<Rightarrow> bool" where
  \<comment> \<open>no replacement pattern, and no \<^verbatim>\<open>$\<close> at the end: joining such texts forms no
      pattern either\<close>
  "plain [] = True"
| "plain [c] = (c \<noteq> CHR ''$'')"
| "plain (c # d # t) = ((c = CHR ''$'' \<longrightarrow> d \<notin> set [CHR ''$'', CHR ''&'', CHR 0x60, CHR 0x27]) \<and> plain (d # t))"

subsection \<open>Results and references\<close>

definition returns :: "fragments \<Rightarrow> string set \<Rightarrow> string \<Rightarrow> string \<Rightarrow> bool" where
  \<comment> \<open>the call returns \<open>r\<close> whenever the stack is deep enough\<close>
  "returns F V s r \<longleftrightarrow> (\<exists>N. \<forall>d\<ge>N. resolveIncludes d s F V = Some r)"

definition segText :: "(string \<times> string \<times> string) list \<Rightarrow> string \<Rightarrow> string" where
  \<comment> \<open>the text a scan came from: every piece followed by its marker, then the rest\<close>
  "segText ms g = concat (map (\<lambda>(gap, tag, refId). gap @ tag) ms) @ g"

definition substituted :: "(string \<times> string \<times> string) list \<Rightarrow> string list \<Rightarrow> string \<Rightarrow> string" where
  \<comment> \<open>the same text with the i-th marker replaced, in place, by the i-th text of \<open>xs\<close>\<close>
  "substituted ms xs g = concat (map2 (\<lambda>(gap, tag, refId) x. gap @ x) ms xs) @ g"

definition markerText :: "fragments \<Rightarrow> string set \<Rightarrow> string \<Rightarrow> string \<Rightarrow> bool" where
  \<comment> \<open>what stands for a marker: the note of a cycle, the result of the recursive call
      on a fragment with content, or the note of a missing fragment\<close>
  "markerText F V refId x \<longleftrightarrow>
     (if refId \<in> V then x = circularNote refId
      else case F refId of
             Some c \<Rightarrow> if c \<noteq> [] then returns F (insert refId V) c x else x = notFoundNote refId
           | None \<Rightarrow> x = notFoundNote refId)"

definition refersTo :: "fragments \<Rightarrow> string \<Rightarrow> string \<Rightarrow> bool" where
  \<comment> \<open>the content of fragment \<open>a\<close> holds a marker for \<open>b\<close>\<close>
  "refersTo F a b \<longleftrightarrow> (\<exists>c. F a = Some c \<and> b \<in> snd ` set (includeMatches c))"

definition reachable :: "fragments \<Rightarrow> string \<Rightarrow> string set" where
  \<comment> \<open>the fragment ids a text leads to: the ids of its markers and, from there on, the
      ids of the markers in the contents of the fragments\<close>
  "reachable F s = {b. \<exists>a \<in> snd ` set (includeMatches s). (refersTo F)\<^sup>*\<^sup>* a b}"

definition noted :: "fragments \<Rightarrow> string \<Rightarrow> bool" where
  \<comment> \<open>a note can come to name this id: the map holds no content for it (the id is
      missing or declared empty), or its fragment refers to itself in one or more steps\<close>
  "noted F refId \<longleftrightarrow> (case F refId of None \<Rightarrow> True | Some c \<Rightarrow> c = [] \<or> (refersTo F)\<^sup>+\<^sup>+ refId refId)"

subsection \<open>Texts on which substitution is purely textual\<close>

text \<open>
  \<^verbatim>\<open>resolveIncludes\<close> works on text: it replaces the first occurrence of a marker's
  text, reads \<^verbatim>\<open>$\<close> patterns in the replacement string, and scans the text it built
  once more. The two predicates below describe the texts on which none of this can
  interfere. \<open>clean\<close> is what is asked of a statement: the pieces between its markers are
  quiet, and an id that is written into a note holds no replacement pattern. \<open>tame\<close> is
  what is asked of a fragment, whose expansion is used as a replacement string: its
  pieces are plain as well. A statement may hold any \<^verbatim>\<open>$\<close>; tags such as
  \<^verbatim>\<open><if test="...">\<close> and parameters such as \<^verbatim>\<open>${column}\<close> are allowed everywhere.
\<close>

definition clean :: "fragments \<Rightarrow> string \<Rightarrow> bool" where
  "clean F s =
     (case regexScan matchInclude s of
        (ms, g) \<Rightarrow>
          quiet g \<and> list_all (\<lambda>(gap, tag, refId). quiet gap \<and> (noted F refId \<longrightarrow> noPattern refId)) ms)"

definition tame :: "fragments \<Rightarrow> string \<Rightarrow> bool" where
  "tame F s =
     (clean F s \<and>
      (case regexScan matchInclude s of
         (ms, g) \<Rightarrow> plain g \<and> list_all (\<lambda>(gap, tag, refId). plain gap) ms))"

subsection \<open>Statements of a document\<close>

definition statementWithId :: "(string \<Rightarrow> string \<Rightarrow> bool) \<Rightarrow> string \<Rightarrow> string \<Rightarrow> bool" where
  \<comment> \<open>the document holds a text that the statement pattern matches for the id: \<^verbatim>\<open><\<close>,
      one of select, insert, update, delete, blanks, any text without \<^verbatim>\<open>>\<close>, \<^verbatim>\<open>id\<close>,
      \<^verbatim>\<open>=\<close> with optional blanks around it, a quote, the statement id (compared by
      \<open>same\<close>), a quote, any text without \<^verbatim>\<open>>\<close>, \<^verbatim>\<open>>\<close>, any text, and the closing tag
      of the same kind; the letters of the tag names and of \<^verbatim>\<open>id\<close> count in either
      case. The text in front of \<^verbatim>\<open>id\<close> is arbitrary, so \<^verbatim>\<open>id\<close> may be the end of a
      longer attribute name, or lie inside the value of another attribute.\<close>
  "statementWithId same doc statementId \<longleftrightarrow>
     (\<exists>pre kind sp attrs name w1 w2 q1 ident q2 attrs' body closing post.
        doc = pre @ ''<'' @ kind @ sp @ attrs @ name @ w1 @ ''='' @ w2 @ [q1] @ ident @ [q2]
                  @ attrs' @ ''>'' @ body @ closing @ post
        \<and> (\<exists>k \<in> set [''select'', ''insert'', ''update'', ''delete'']. ciEqual kind k)
        \<and> sp \<noteq> [] \<and> list_all isSpace sp \<and> CHR ''>'' \<notin> set attrs \<and> ciEqual name ''id''
        \<and> list_all isSpace w1 \<and> list_all isSpace w2
        \<and> isQuote q1 \<and> isQuote q2 \<and> same ident statementId
        \<and> CHR ''>'' \<notin> set attrs' \<and> ciEqual closing (''</'' @ kind @ ''>''))"

subsection \<open>A marker that stands for itself\<close>

definition selfTag :: string where
  \<comment> \<open>a marker whose id is the replacement pattern for the matched text\<close>
  \<open>selfTag = ''<include refid="$&"/>''\<close>

definition wrapped :: "nat \<Rightarrow> string" where
  \<comment> \<open>that marker inside \<open>n\<close> notes of a missing fragment\<close>
  "wrapped n = concat (replicate n ''/* Fragment not found: '') @ selfTag @ concat (replicate n '' */'')"

section \<open>Documents used as examples\<close>

definition nestedA :: string where
  "nestedA = ''x, y''"

definition nestedB :: string where
  \<open>nestedB = ''<include refid="A"/>, z''\<close>

definition nestedS :: string where
  \<open>nestedS = ''select <include refid="B"/> from t''\<close>

definition nestedDoc :: string where
  \<open>nestedDoc = ''<sql id="A">x, y</sql><sql id="B"><include refid="A"/>, z</sql><select id="S">select <include refid="B"/> from t</select>''\<close>

definition dupDoc :: string where
  \<open>dupDoc = ''<sql id="cols">id</sql><sql id="cols">id, name</sql>''\<close>

definition cycleDoc :: string where
  \<open>cycleDoc = ''<sql id="b">old $& text</sql><sql id="a"><include refid="b"/></sql><sql id="b"><include refid="a"/></sql><sql id="junk">it's $' here</sql><select id="q">select 1 <include refid="a"/> where c regexp '^x$' limit 1</select>''\<close>

definition missingDoc :: string where
  \<open>missingDoc = ''<sql id="cols">id, name</sql><sql id="junk">it's $' here</sql><select id="q">select <include refid="cols"/> from u where price = '$' and <include refid="nope"/> <if test="x">and x</if></select>''\<close>

definition swallowedCycleDoc :: string where
  \<open>swallowedCycleDoc = ''<sql id="A"><include refid="A"/></sql><sql id="/* Circular reference detected: A */">gone</sql><select id="q"><include refid="<include refid="A"/>"/></select>''\<close>

definition swallowedMissingDoc :: string where
  \<open>swallowedMissingDoc = ''<sql id="/* Fragment not found: M */">gone</sql><select id="q"><include refid="<include refid="M"/>"/></select>''\<close>

definition caseDoc :: string where
  \<open>caseDoc = ''<select id="FindUser">select 1</select>''\<close>

definition plainDoc :: string where
  \<open>plainDoc = ''<select id="selectUser">select id from users</select>''\<close>

definition emptyBodyDoc :: string where
  \<open>emptyBodyDoc = ''<select id="s"></select>''\<close>

definition dollarDoc :: string where
  \<open>dollarDoc = ''<sql id="w">where c regexp '^x$'</sql><select id="q">select * from t <include refid="w"/> order by id</select>''\<close>

definition selfTagDoc :: string where
  \<open>selfTagDoc = ''<select id="q"><include refid="$&"/></select>''\<close>

definition valueDoc :: string where
  \<open>valueDoc = ''<select comment="see id='foo'" id="bar">1</select>''\<close>

definition attrDoc :: string where
  \<open>attrDoc = ''<sql id="cols">id</sql><sql databaseId="oracle" id="cols">id, name</sql><select id="q">select <include refid="cols"/> from t</select>''\<close>

section \<open>Properties of the primitives\<close>

lemma stripPrefix_Some: "stripPrefix p s = Some r \<Longrightarrow> s = p @ r"
  by (induction p s rule: stripPrefix.induct) (auto split: if_splits)

lemma splitFirst_Some: "splitFirst p s = Some (b, a) \<Longrightarrow> s = b @ p @ a"
proof (induction p s arbitrary: b rule: splitFirst.induct)
  case (1 pat)
  then show ?case by (auto split: if_splits)
next
  case (2 pat c cs)
  show ?case
  proof (cases "stripPrefix pat (c # cs)")
    case None
    with 2 show ?thesis by auto
  next
    case (Some r)
    with "2.prems" have "b = []" "a = r" by simp_all
    with stripPrefix_Some [OF Some] show ?thesis by simp
  qed
qed

lemma matchComment_Some: "matchComment s = Some (m, rest) \<Longrightarrow> s = m @ rest"
  by (auto simp: matchComment_def split: option.splits
      dest!: stripPrefix_Some splitFirst_Some)

lemma regexScan_concat:
  assumes "\<And>s x rest. m s = Some (x, rest) \<Longrightarrow> s = txt x @ rest"
    and "regexScan m s = (ms, g)"
  shows "s = concat (map (\<lambda>(gap, x). gap @ txt x) ms) @ g"
  using assms
proof (induction m s arbitrary: ms g rule: regexScan.induct)
  case (1 m)
  then show ?case by simp
next
  case (2 m c cs)
  note sound = "2.prems"(1) and eq = "2.prems"(2)
  show ?case
  proof (cases "m (c # cs)")
    case None
    obtain ms' g' where r: "regexScan m cs = (ms', g')" by (cases "regexScan m cs")
    from "2.IH"(1) [OF None sound r]
    have cs: "cs = concat (map (\<lambda>(gap, x). gap @ txt x) ms') @ g'" .
    show ?thesis
    proof (cases ms')
      case Nil
      with eq None r cs show ?thesis by simp
    next
      case (Cons p ms'')
      obtain g0 y where p: "p = (g0, y)" by (cases p)
      from eq None r Cons p have "ms = (c # g0, y) # ms''" "g = g'" by simp_all
      with cs Cons p show ?thesis by simp
    qed
  next
    case (Some a)
    obtain x rest where a: "a = (x, rest)" by (cases a)
    have s: "c # cs = txt x @ rest" using sound [of "c # cs" x rest] Some a by simp
    show ?thesis
    proof (cases "length rest < length (c # cs)")
      case True
      obtain ms' g' where r: "regexScan m rest = (ms', g')" by (cases "regexScan m rest")
      from "2.IH"(2) [OF Some [unfolded a] refl True sound r]
      have "rest = concat (map (\<lambda>(gap, x). gap @ txt x) ms') @ g'" .
      moreover from eq Some a True r have "ms = ([], x) # ms'" "g = g'" by simp_all
      ultimately show ?thesis using s by simp
    next
      case False
      with eq Some a have "ms = []" "g = c # cs" by simp_all
      then show ?thesis by simp
    qed
  qed
qed

lemma newlineCount_append: "newlineCount (a @ b) = newlineCount a + newlineCount b"
  by (simp add: newlineCount_def)

lemma newlineCount_replicate: "newlineCount (replicate n (CHR 0x0A)) = n"
  by (simp add: newlineCount_def)

lemma newlineCount_pieces:
  "newlineCount (concat (map (\<lambda>(gap, match). gap @ replicate (newlineCount match) (CHR 0x0A)) ms))
   = newlineCount (concat (map (\<lambda>(gap, match). gap @ match) ms))"
  by (induction ms) (auto simp: newlineCount_append newlineCount_replicate)

section \<open>The depth bound\<close>

lemma replaceInclude_mono:
  assumes "\<And>s v x. rec s v = Some x \<Longrightarrow> rec' s v = Some x"
    and "replaceInclude rec F V m res = Some r"
  shows "replaceInclude rec' F V m res = Some r"
  using assms by (auto simp: replaceInclude_def split: prod.splits option.splits if_splits)

lemma resolveLoop_mono:
  assumes "\<And>s v x. rec s v = Some x \<Longrightarrow> rec' s v = Some x"
    and "resolveLoop rec F V ms res = Some r"
  shows "resolveLoop rec' F V ms res = Some r"
  using assms(2)
proof (induction ms arbitrary: res)
  case Nil
  then show ?case by simp
next
  case (Cons m ms)
  then obtain r1 where r1: "replaceInclude rec F V m res = Some r1"
    and l: "resolveLoop rec F V ms r1 = Some r"
    by (auto split: option.splits)
  from replaceInclude_mono [OF assms(1) r1] Cons.IH [OF l] show ?case
    by simp
qed

lemma resolveIncludes_unfold:
  "resolveIncludes (Suc d) sql F V =
     (case resolveLoop (\<lambda>s v. resolveIncludes d s F v) F V (includeMatches sql) sql of
        None \<Rightarrow> None
      | Some res \<Rightarrow>
          if includeMatches sql \<noteq> [] \<and> includeMatches res \<noteq> []
          then resolveIncludes d res F V else Some res)"
  by (simp add: Let_def)

lemma resolveIncludes_Suc:
  "resolveIncludes d sql F V = Some r \<Longrightarrow> resolveIncludes (Suc d) sql F V = Some r"
proof (induction d arbitrary: sql V r)
  case 0
  then show ?case by simp
next
  case (Suc d)
  let ?rec = "\<lambda>s v. resolveIncludes d s F v"
  let ?rec' = "\<lambda>s v. resolveIncludes (Suc d) s F v"
  from Suc.prems obtain res where
    l: "resolveLoop ?rec F V (includeMatches sql) sql = Some res"
    unfolding resolveIncludes_unfold by (auto split: option.splits)
  have l': "resolveLoop ?rec' F V (includeMatches sql) sql = Some res"
    by (rule resolveLoop_mono [OF _ l]) (rule Suc.IH)
  show ?case
  proof (cases "includeMatches sql \<noteq> [] \<and> includeMatches res \<noteq> []")
    case True
    with Suc.prems l have "resolveIncludes d res F V = Some r"
      unfolding resolveIncludes_unfold by simp
    then have "resolveIncludes (Suc d) res F V = Some r" by (rule Suc.IH)
    with l' True show ?thesis
      unfolding resolveIncludes_unfold [of "Suc d"] by simp
  next
    case False
    with Suc.prems l have "r = res"
      unfolding resolveIncludes_unfold by auto
    with l' False show ?thesis
      unfolding resolveIncludes_unfold [of "Suc d"] by auto
  qed
qed

lemma resolveIncludes_mono:
  "resolveIncludes d sql F V = Some r \<Longrightarrow> d \<le> d' \<Longrightarrow> resolveIncludes d' sql F V = Some r"
  by (induction d') (auto simp: le_Suc_eq dest: resolveIncludes_Suc simp del: resolveIncludes.simps)

lemma resolveIncludes_no_markers:
  "includeMatches sql = [] \<Longrightarrow> resolveIncludes (Suc d) sql F V = Some sql"
  by simp

section \<open>Evaluations and auxiliary facts\<close>

lemma extractStatementContent_empty: "extractStatementContent [] statementId = None"
  by (simp add: extractStatementContent_def removeXmlComments_def matchStatement_def expectChar_def)

lemma fold_set_fragments:
  "fold (\<lambda>(ident, body) frags. frags(ident \<mapsto> body)) ds m = m ++ map_of (rev ds)"
  by (induction ds arbitrary: m) (auto simp: map_add_def fun_eq_iff split: option.splits)

lemma dupDoc_declarations:
  "fragmentDeclarations dupDoc = [(''cols'', ''id''), (''cols'', ''id, name'')]"
  by code_simp

text \<open>
  Among the declarations that the pattern reads, the last one of an id is the one the
  map holds.
\<close>

lemma read_declarations_last_wins:
  assumes "fragmentDeclarations content = earlier @ (ident, body) # later"
    and "ident \<notin> fst ` set later"
  shows "extractSqlFragments content ident = Some body"
proof -
  have "map_of (rev later) ident = None"
    using assms(2) by (simp add: map_of_eq_None_iff)
  then show ?thesis
    by (simp add: extractSqlFragments_def fold_set_fragments assms(1) map_add_def)
qed

lemma dupDoc_last_wins: "extractSqlFragments dupDoc ''cols'' = Some ''id, name''"
  using read_declarations_last_wins [of dupDoc "[(''cols'', ''id'')]" "''cols''" "''id, name''" "[]"]
    dupDoc_declarations
  by simp

lemma includeMatches_nested:
  "includeMatches nestedA = []"
  \<open>includeMatches nestedB = [(''<include refid="A"/>'', ''A'')]\<close>
  \<open>includeMatches nestedS = [(''<include refid="B"/>'', ''B'')]\<close>
  "includeMatches ''x, y, z'' = []"
  "includeMatches ''select x, y, z from t'' = []"
  by code_simp+

lemma nested_nonempty: "nestedA \<noteq> []" "nestedB \<noteq> []"
  by (simp_all add: nestedA_def nestedB_def)

lemma jsReplace_nested:
  \<open>jsReplace nestedB ''<include refid="A"/>'' nestedA = ''x, y, z''\<close>
  \<open>jsReplace nestedS ''<include refid="B"/>'' ''x, y, z'' = ''select x, y, z from t''\<close>
  by code_simp+

lemma nestedDoc_parts:
  "extractSqlFragments nestedDoc ''A'' = Some nestedA"
  "extractSqlFragments nestedDoc ''B'' = Some nestedB"
  "extractStatementContent nestedDoc ''S'' = Some nestedS"
  by code_simp+

lemma putAll_capacity: "capacity (putAll kvs c) = capacity c"
  by (induction kvs arbitrary: c)
     (auto simp: putAll_def lruPut_def promote_def evictLeastRecentlyUsed_def Let_def)

lemma butlast_take_Suc: "length ys = Suc n \<Longrightarrow> butlast ys = take n ys"
  by (simp add: butlast_conv_take)

lemma putAll_entries:
  "distinct (map fst kvs) \<Longrightarrow> entries (putAll kvs (emptyCache n)) = take n (rev kvs)"
proof (induction kvs rule: rev_induct)
  case Nil
  then show ?case by (simp add: putAll_def emptyCache_def)
next
  case (snoc kv kvs)
  obtain k v where kv: "kv = (k, v)" by (cases kv)
  let ?c = "putAll kvs (emptyCache n)"
  from snoc have e: "entries ?c = take n (rev kvs)" and k: "k \<notin> fst ` set kvs"
    by (auto simp: kv)
  have cap: "capacity ?c = n" by (simp add: putAll_capacity emptyCache_def)
  have f: "filter (\<lambda>e. fst e \<noteq> k) (take n (rev kvs)) = take n (rev kvs)"
    using k by (auto simp: filter_id_conv dest!: in_set_takeD)
  have p: "putAll (kvs @ [(k, v)]) (emptyCache n) = lruPut k v ?c"
    by (simp add: putAll_def)
  have ents: "entries (lruPut k v ?c) =
      (if n < Suc (length (take n (rev kvs))) then butlast ((k, v) # take n (rev kvs))
       else (k, v) # take n (rev kvs))"
    by (simp add: lruPut_def promote_def Let_def lruSize_def evictLeastRecentlyUsed_def e f cap)
  have tt: "take n ((k, v) # take n (rev kvs)) = take n ((k, v) # rev kvs)"
    by (cases n) simp_all
  show ?case
  proof (cases "n \<le> length kvs")
    case True
    then have "length ((k, v) # take n (rev kvs)) = Suc n" by simp
    from butlast_take_Suc [OF this]
    have "butlast ((k, v) # take n (rev kvs)) = take n ((k, v) # rev kvs)"
      by (simp only: tt)
    with True show ?thesis unfolding kv by (simp add: p ents del: butlast.simps)
  next
    case False
    then have "take n ((k, v) # rev kvs) = (k, v) # take n (rev kvs)"
      by (cases n) simp_all
    with False show ?thesis unfolding kv by (simp add: p ents del: butlast.simps)
  qed
qed

section \<open>Markers in inert text\<close>

lemma stripPrefixCI_iff:
  "stripPrefixCI p s = Some r \<longleftrightarrow> (\<exists>u. s = u @ r \<and> map canonicalize u = map canonicalize p)"
proof (induction p s rule: stripPrefixCI.induct)
  case (1 s)
  then show ?case by auto
next
  case (2 p ps)
  then show ?case by auto
next
  case (3 p ps c cs)
  show ?case
  proof (cases "canonicalize p = canonicalize c")
    case True
    have "(\<exists>u. cs = u @ r \<and> map canonicalize u = map canonicalize ps)
        \<longleftrightarrow> (\<exists>u. c # cs = u @ r \<and> map canonicalize u = map canonicalize (p # ps))"
      (is "?L \<longleftrightarrow> ?R")
    proof
      assume ?L
      then obtain u where "cs = u @ r" "map canonicalize u = map canonicalize ps" by blast
      with True have "c # cs = (c # u) @ r \<and> map canonicalize (c # u) = map canonicalize (p # ps)"
        by simp
      then show ?R by blast
    next
      assume ?R
      then obtain u where u: "c # cs = u @ r" "map canonicalize u = map canonicalize (p # ps)" by blast
      then obtain u' where "u = c # u'" by (cases u) auto
      with u show ?L by auto
    qed
    with 3 True show ?thesis by simp
  next
    case False
    have "\<not> (\<exists>u. c # cs = u @ r \<and> map canonicalize u = map canonicalize (p # ps))"
    proof
      assume "\<exists>u. c # cs = u @ r \<and> map canonicalize u = map canonicalize (p # ps)"
      then obtain u where u: "c # cs = u @ r" "map canonicalize u = map canonicalize (p # ps)" by blast
      then obtain u' where "u = c # u'" by (cases u) auto
      with u False show False by auto
    qed
    with False show ?thesis by simp
  qed
qed

lemma stripPrefix_iff: "stripPrefix p s = Some r \<longleftrightarrow> s = p @ r"
  by (induction p s rule: stripPrefix.induct) auto

lemma stripPrefixCI_compat: "stripPrefixCI p s = Some r \<Longrightarrow> compatCI p s"
  by (induction p s rule: stripPrefixCI.induct) (auto split: if_splits)

lemma compatCI_append: "compatCI p (s @ t) \<Longrightarrow> compatCI p s"
  by (induction p s rule: compatCI.induct) auto

lemma inert_append: "inert a \<Longrightarrow> inert b \<Longrightarrow> inert (a @ b)"
proof (induction a)
  case Nil
  then show ?case by simp
next
  case (Cons c a)
  from Cons.prems have "\<not> compatCI ''<include'' (c # a)" by simp
  then have "\<not> compatCI ''<include'' ((c # a) @ b)" using compatCI_append by blast
  with Cons show ?case by simp
qed

lemma canonicalize_lt: "canonicalize c = CHR ''<'' \<Longrightarrow> c = CHR ''<''"
proof -
  assume a: "canonicalize c = CHR ''<''"
  show ?thesis
  proof (rule ccontr)
    assume n: "c \<noteq> CHR ''<''"
    with a have r: "(97 \<le> (of_char c :: nat) \<and> (of_char c :: nat) \<le> 122)
        \<or> (224 \<le> (of_char c :: nat) \<and> (of_char c :: nat) \<le> 254 \<and> (of_char c :: nat) \<noteq> 247)"
      and e: "char_of ((of_char c :: nat) - 32) = CHR ''<''"
      by (auto simp: canonicalize_def Let_def split: if_splits)
    from e have "(of_char (char_of ((of_char c :: nat) - 32) :: char) :: nat) = of_char (CHR ''<'')"
      by simp
    then have "((of_char c :: nat) - 32) mod 256 = 60" by (simp add: of_char_of)
    moreover have "(of_char c :: nat) < 256" by simp
    ultimately show False using r by auto
  qed
qed

lemma no_lt_inert: "CHR ''<'' \<notin> set s \<Longrightarrow> inert s"
proof (induction s)
  case Nil
  then show ?case by simp
next
  case (Cons c s)
  have "canonicalize (CHR ''<'') = CHR ''<''" by (simp add: canonicalize_def)
  with Cons canonicalize_lt [of c] show ?case by auto
qed

lemma plain_append: "plain a \<Longrightarrow> plain b \<Longrightarrow> plain (a @ b)"
proof (induction a rule: plain.induct)
  case 1
  then show ?case by simp
next
  case (2 c)
  then show ?case by (cases b) auto
next
  case (3 c d t)
  then show ?case by simp
qed

lemma spaces1_suffix: "spaces1 s = Some r \<Longrightarrow> suffix r s"
  by (auto simp: spaces1_def split: list.splits if_splits
      intro: suffix_ConsI suffix_dropWhile)

lemma spaces0_suffix: "suffix (spaces0 s) s"
  by (simp add: spaces0_def suffix_dropWhile)

lemma expectChar_suffix: "expectChar x s = Some r \<Longrightarrow> suffix r s"
  by (auto simp: expectChar_def split: list.splits if_splits intro: suffix_ConsI)

lemma expectQuote_suffix: "expectQuote s = Some r \<Longrightarrow> suffix r s"
  by (auto simp: expectQuote_def split: list.splits if_splits intro: suffix_ConsI)

lemma optionalSlash_suffix: "suffix (optionalSlash s) s"
  by (auto simp: optionalSlash_def split: list.splits intro: suffix_ConsI)

lemma stripPrefixCI_suffix: "stripPrefixCI p s = Some r \<Longrightarrow> suffix r s"
  by (auto simp: stripPrefixCI_iff suffix_def)

lemma matchInclude_start:
  "matchInclude s = Some x \<Longrightarrow> \<exists>r. stripPrefixCI ''<include'' s = Some r"
  by (cases "stripPrefixCI ''<include'' s") (simp_all add: matchInclude_def)

lemma matchInclude_sound:
  assumes "matchInclude s = Some ((tag, refId), rest)"
  shows "s = tag @ rest \<and> (\<exists>v. stripPrefixCI ''<include'' tag = Some v) \<and> refId \<noteq> []"
proof -
  from assms obtain s1 s2 s3 s4 s5 s6 where
    1: "stripPrefixCI ''<include'' s = Some s1" and
    2: "spaces1 s1 = Some s2" and
    3: "stripPrefixCI ''refid'' s2 = Some s3" and
    4: "expectChar (CHR ''='') (spaces0 s3) = Some s4" and
    5: "expectQuote (spaces0 s4) = Some s5" and
    ne: "takeWhile (\<lambda>c. \<not> isQuote c) s5 \<noteq> []" and
    rid: "refId = takeWhile (\<lambda>c. \<not> isQuote c) s5" and
    6: "expectQuote (dropWhile (\<lambda>c. \<not> isQuote c) s5) = Some s6" and
    7: "expectChar (CHR ''>'') (optionalSlash (spaces0 s6)) = Some rest" and
    tag: "tag = take (length s - length rest) s"
    by (auto simp: matchInclude_def Let_def bind_eq_Some_conv split: if_splits)
  have "suffix rest s6"
    using 7 expectChar_suffix optionalSlash_suffix spaces0_suffix suffix_order.trans by blast
  also have "suffix s6 s5"
    using 6 expectQuote_suffix suffix_dropWhile suffix_order.trans by blast
  also have "suffix s5 s4"
    using 5 expectQuote_suffix spaces0_suffix suffix_order.trans by blast
  also have "suffix s4 s3"
    using 4 expectChar_suffix spaces0_suffix suffix_order.trans by blast
  also have "suffix s3 s2" using 3 by (rule stripPrefixCI_suffix)
  also have "suffix s2 s1" using 2 by (rule spaces1_suffix)
  finally obtain v where v: "s1 = v @ rest" by (auto simp: suffix_def)
  from 1 obtain u where u: "s = u @ s1" "map canonicalize u = map canonicalize ''<include''"
    by (auto simp: stripPrefixCI_iff)
  from u v tag have t: "tag = u @ v" by simp
  have "stripPrefixCI ''<include'' (u @ v) = Some v"
    unfolding stripPrefixCI_iff using u(2) by blast
  with t u v rid ne show ?thesis by simp
qed

lemma regexScan_inert: "inert s \<Longrightarrow> regexScan matchInclude s = ([], s)"
proof (induction s)
  case Nil
  then show ?case by simp
next
  case (Cons c s)
  have "matchInclude (c # s) = None"
  proof (rule ccontr)
    assume "matchInclude (c # s) \<noteq> None"
    then obtain x where "matchInclude (c # s) = Some x" by auto
    from matchInclude_start [OF this] obtain r where "stripPrefixCI ''<include'' (c # s) = Some r" ..
    from stripPrefixCI_compat [OF this] Cons.prems show False by simp
  qed
  with Cons show ?case by simp
qed

lemma first_occurrence:
  assumes "stripPrefixCI ''<include'' t = Some v"
  shows "inert a \<Longrightarrow> splitFirst t (a @ t @ b) = Some (a, b)"
proof (induction a)
  case Nil
  from assms have "t \<noteq> []" by (auto simp: stripPrefixCI_iff)
  then obtain c cs where c: "t @ b = c # cs" by (cases t) auto
  have "stripPrefix t (t @ b) = Some b" by (simp add: stripPrefix_iff)
  then show ?case using c by (simp del: stripPrefix.simps)
next
  case (Cons c a)
  have "stripPrefix t (c # a @ t @ b) = None"
  proof (rule ccontr)
    assume "stripPrefix t (c # a @ t @ b) \<noteq> None"
    then obtain r where "stripPrefix t (c # a @ t @ b) = Some r" by auto
    then have e: "(c # a) @ t @ b = t @ r" by (simp add: stripPrefix_iff)
    from assms obtain u where u: "t = u @ v" "map canonicalize u = map canonicalize ''<include''"
      by (auto simp: stripPrefixCI_iff)
    have "stripPrefixCI ''<include'' ((c # a) @ t @ b) = Some (v @ r)"
      unfolding stripPrefixCI_iff e using u by auto
    from stripPrefixCI_compat [OF this] have "compatCI ''<include'' (c # a)"
      by (rule compatCI_append)
    with Cons.prems show False by simp
  qed
  moreover from Cons have "splitFirst t (a @ t @ b) = Some (a, b)" by simp
  ultimately show ?case by (simp del: stripPrefix.simps)
qed

lemma regexScan_matches:
  "regexScan m s = (ms, g) \<Longrightarrow> (gap, x) \<in> set ms \<Longrightarrow> \<exists>s' rest. m s' = Some (x, rest)"
proof (induction m s arbitrary: ms g gap rule: regexScan.induct)
  case (1 m)
  then show ?case by simp
next
  case (2 m c cs)
  show ?case
  proof (cases "m (c # cs)")
    case None
    obtain ms' g' where r: "regexScan m cs = (ms', g')" by (cases "regexScan m cs")
    show ?thesis
    proof (cases ms')
      case Nil
      with "2.prems" None r show ?thesis by simp
    next
      case (Cons p ms'')
      obtain g0 y where p: "p = (g0, y)" by (cases p)
      from "2.prems"(1) None r Cons p have ms: "ms = (c # g0, y) # ms''" by simp
      with "2.prems"(2) have "(g0, x) \<in> set ms' \<or> (gap, x) \<in> set ms'"
        using Cons p by auto
      then show ?thesis using "2.IH"(1) [OF None r] by blast
    qed
  next
    case (Some a)
    obtain y rest where a: "a = (y, rest)" by (cases a)
    show ?thesis
    proof (cases "length rest < length (c # cs)")
      case True
      obtain ms' g' where r: "regexScan m rest = (ms', g')" by (cases "regexScan m rest")
      from "2.prems"(1) Some a True r have "ms = ([], y) # ms'" by simp
      with "2.prems"(2) have "x = y \<or> (gap, x) \<in> set ms'" by auto
      then show ?thesis
        using "2.IH"(2) [OF Some [unfolded a] refl True r] Some a by blast
    next
      case False
      with "2.prems" Some a show ?thesis by simp
    qed
  qed
qed

lemma includeMatches_segText:
  assumes "regexScan matchInclude s = (ms, g)"
  shows "s = segText ms g"
proof -
  have "s = concat (map (\<lambda>(gap, x). gap @ fst x) ms) @ g"
    by (rule regexScan_concat [OF _ assms]) (auto dest: matchInclude_sound)
  also have "(\<lambda>(gap, x). gap @ fst x) = (\<lambda>(gap, tag, refId). gap @ tag)" by auto
  finally show ?thesis by (simp add: segText_def)
qed

lemma includeMatches_nonempty: "a \<in> snd ` set (includeMatches s) \<Longrightarrow> s \<noteq> []"
  by (auto simp: includeMatches_def)

section \<open>Every match of the marker pattern is a marker\<close>

lemma dropWhile_split: "\<exists>w. s = w @ dropWhile P s \<and> list_all P w"
  by (rule exI [of _ "takeWhile P s"]) (auto simp: list_all_iff dest: set_takeWhileD)

lemma spaces0_split: "\<exists>w. s = w @ spaces0 s \<and> list_all isSpace w"
  unfolding spaces0_def by (rule dropWhile_split)

lemma spaces1_split: "spaces1 s = Some r \<Longrightarrow> \<exists>w. s = w @ r \<and> w \<noteq> [] \<and> list_all isSpace w"
proof -
  assume a: "spaces1 s = Some r"
  then obtain c cs where s: "s = c # cs" "isSpace c" "r = dropWhile isSpace cs"
    by (auto simp: spaces1_def split: list.splits if_splits)
  from dropWhile_split [of cs isSpace] obtain w where "cs = w @ dropWhile isSpace cs" "list_all isSpace w"
    by blast
  with s have "s = (c # w) @ r \<and> c # w \<noteq> [] \<and> list_all isSpace (c # w)" by simp
  then show ?thesis by blast
qed

lemma matchInclude_marker:
  assumes "matchInclude s = Some ((tag, refId), rest)"
  shows "isIncludeMarker tag"
proof -
  from assms obtain s1 s2 s3 s4 s5 s6 where
    1: "stripPrefixCI ''<include'' s = Some s1" and
    2: "spaces1 s1 = Some s2" and
    3: "stripPrefixCI ''refid'' s2 = Some s3" and
    4: "expectChar (CHR ''='') (spaces0 s3) = Some s4" and
    5: "expectQuote (spaces0 s4) = Some s5" and
    ne: "takeWhile (\<lambda>c. \<not> isQuote c) s5 \<noteq> []" and
    rid: "refId = takeWhile (\<lambda>c. \<not> isQuote c) s5" and
    6: "expectQuote (dropWhile (\<lambda>c. \<not> isQuote c) s5) = Some s6" and
    7: "expectChar (CHR ''>'') (optionalSlash (spaces0 s6)) = Some rest"
    by (auto simp: matchInclude_def Let_def bind_eq_Some_conv split: if_splits)
  from 1 obtain name where n: "s = name @ s1" "ciEqual name ''<include''"
    by (auto simp: stripPrefixCI_iff ciEqual_def)
  from spaces1_split [OF 2] obtain w1 where w1: "s1 = w1 @ s2" "w1 \<noteq> []" "list_all isSpace w1"
    by blast
  from 3 obtain attr where a: "s2 = attr @ s3" "ciEqual attr ''refid''"
    by (auto simp: stripPrefixCI_iff ciEqual_def)
  from spaces0_split [of s3] obtain w2 where w2: "s3 = w2 @ spaces0 s3" "list_all isSpace w2" by blast
  from 4 have e4: "spaces0 s3 = ''='' @ s4"
    by (auto simp: expectChar_def split: list.splits if_splits)
  from spaces0_split [of s4] obtain w3 where w3: "s4 = w3 @ spaces0 s4" "list_all isSpace w3" by blast
  from 5 obtain q1 where q1: "spaces0 s4 = [q1] @ s5" "isQuote q1"
    by (auto simp: expectQuote_def split: list.splits if_splits)
  have r: "s5 = refId @ dropWhile (\<lambda>c. \<not> isQuote c) s5" "list_all (\<lambda>c. \<not> isQuote c) refId"
    using rid by (auto simp: list_all_iff dest: set_takeWhileD)
  from 6 obtain q2 where q2: "dropWhile (\<lambda>c. \<not> isQuote c) s5 = [q2] @ s6" "isQuote q2"
    by (auto simp: expectQuote_def split: list.splits if_splits)
  from spaces0_split [of s6] obtain w4 where w4: "s6 = w4 @ spaces0 s6" "list_all isSpace w4" by blast
  have "\<exists>slash. spaces0 s6 = slash @ optionalSlash (spaces0 s6) \<and> (slash = [] \<or> slash = ''/'')"
  proof (cases "spaces0 s6")
    case Nil
    then show ?thesis by (simp add: optionalSlash_def)
  next
    case (Cons c cs)
    show ?thesis
    proof (cases "c = CHR ''/''")
      case True
      with Cons have "spaces0 s6 = ''/'' @ optionalSlash (spaces0 s6)" by (simp add: optionalSlash_def)
      then show ?thesis by blast
    next
      case False
      with Cons have "spaces0 s6 = [] @ optionalSlash (spaces0 s6)" by (simp add: optionalSlash_def)
      then show ?thesis by blast
    qed
  qed
  then obtain slash where sl: "spaces0 s6 = slash @ optionalSlash (spaces0 s6)" "slash = [] \<or> slash = ''/''"
    by blast
  from 7 have e7: "optionalSlash (spaces0 s6) = ''>'' @ rest"
    by (auto simp: expectChar_def split: list.splits if_splits)
  have s6: "s6 = w4 @ slash @ ''>'' @ rest" using w4(1) sl(1) e7 by simp
  have s5: "s5 = refId @ [q2] @ s6" using r(1) q2(1) by simp
  have s4: "s4 = w3 @ [q1] @ s5" using w3(1) q1(1) by simp
  have s3: "s3 = w2 @ ''='' @ s4" using w2(1) e4 by simp
  have "s = (name @ w1 @ attr @ w2 @ ''='' @ w3 @ [q1] @ refId @ [q2] @ w4 @ slash @ ''>'') @ rest"
    using n(1) w1(1) a(1) s3 s4 s5 s6 by simp
  moreover from matchInclude_sound [OF assms] have "s = tag @ rest" by simp
  ultimately have "tag = name @ w1 @ attr @ w2 @ ''='' @ w3 @ [q1] @ refId @ [q2] @ w4 @ slash @ ''>''"
    by simp
  with n(2) w1(2,3) a(2) w2(2) w3(2) q1(2) ne rid r(2) q2(2) w4(2) sl(2)
  show ?thesis unfolding isIncludeMarker_def by blast
qed

lemma segText_holds:
  "(gap, tag, refId) \<in> set ms \<Longrightarrow> \<exists>pre post. segText ms g = pre @ tag @ post"
proof (induction ms)
  case Nil
  then show ?case by simp
next
  case (Cons m ms)
  obtain gap' tag' refId' where m: "m = (gap', tag', refId')" by (cases m)
  from Cons.prems consider "m = (gap, tag, refId)" | "(gap, tag, refId) \<in> set ms" by auto
  then show ?case
  proof cases
    case 1
    then have "segText (m # ms) g = gap @ tag @ segText ms g" by (simp add: segText_def)
    then show ?thesis by blast
  next
    case 2
    from Cons.IH [OF this] obtain pre post where "segText ms g = pre @ tag @ post" by blast
    then have "segText (m # ms) g = (gap' @ tag' @ pre) @ tag @ post" by (simp add: segText_def m)
    then show ?thesis by blast
  qed
qed

lemma includeMatches_holdsMarker:
  assumes "includeMatches s \<noteq> []"
  shows "holdsMarker s"
proof -
  obtain ms g where scan: "regexScan matchInclude s = (ms, g)"
    by (cases "regexScan matchInclude s")
  with assms obtain gap tag refId where mem: "(gap, tag, refId) \<in> set ms"
    by (cases ms) (auto simp: includeMatches_def)
  from regexScan_matches [OF scan mem] matchInclude_marker have "isIncludeMarker tag" by blast
  moreover from segText_holds [OF mem, of g] includeMatches_segText [OF scan]
  obtain pre post where "s = pre @ tag @ post" by auto
  ultimately show ?thesis unfolding holdsMarker_def by blast
qed

lemma holdsMarker_lt: "holdsMarker s \<Longrightarrow> CHR ''<'' \<in> set s"
proof -
  assume "holdsMarker s"
  then obtain pre m post name rest where s: "s = pre @ m @ post" and m: "m = name @ rest"
    and n: "ciEqual name ''<include''"
    unfolding holdsMarker_def isIncludeMarker_def by blast
  from n have "map canonicalize name = map canonicalize ''<include''" by (simp add: ciEqual_def)
  then obtain c cs where name: "name = c # cs" and "canonicalize c = canonicalize (CHR ''<'')"
    by (cases name) auto
  moreover have "canonicalize (CHR ''<'') = CHR ''<''" by code_simp
  ultimately have "c = CHR ''<''" using canonicalize_lt by simp
  with s m name show ?thesis by simp
qed

lemma matchInclude_refId:
  assumes "matchInclude s = Some ((tag, refId), rest)"
  shows "\<forall>c\<in>set refId. \<not> isQuote c"
proof -
  from assms obtain s5 where "refId = takeWhile (\<lambda>c. \<not> isQuote c) s5"
    by (auto simp: matchInclude_def Let_def bind_eq_Some_conv split: if_splits)
  then show ?thesis by (auto dest: set_takeWhileD)
qed

lemma segment_marker:
  assumes "regexScan matchInclude s = (ms, g)" and "(gap, tag, refId) \<in> set ms"
  shows "isIncludeMarker tag" "\<forall>c\<in>set refId. \<not> isQuote c"
proof -
  from regexScan_matches [OF assms] obtain s' rest where
    m: "matchInclude s' = Some ((tag, refId), rest)" by blast
  from matchInclude_marker [OF m] show "isIncludeMarker tag" .
  from matchInclude_refId [OF m] show "\<forall>c\<in>set refId. \<not> isQuote c" .
qed

section \<open>Quiet and plain text\<close>

lemma plain_noPattern: "plain s \<Longrightarrow> noPattern s"
  by (induction s rule: plain.induct) auto

lemma getSubstitution_noPattern: "noPattern t \<Longrightarrow> getSubstitution m b a t = t"
  by (induction m b a t rule: getSubstitution.induct) auto

lemma noPattern_closing: "noPattern r \<Longrightarrow> plain (r @ '' */'')"
  by (induction r rule: noPattern.induct) auto

lemma circularNote_plain: "noPattern refId \<Longrightarrow> plain (circularNote refId)"
  unfolding circularNote_def by (intro plain_append noPattern_closing) simp_all

lemma notFoundNote_plain: "noPattern refId \<Longrightarrow> plain (notFoundNote refId)"
  unfolding notFoundNote_def by (intro plain_append noPattern_closing) simp_all

lemma append_eq_prefix: "a @ x = b @ y \<Longrightarrow> prefix a b \<or> prefix b a"
  by (auto simp: append_eq_append_conv2 prefix_def)

lemma beginsMarker_append: "beginsMarker (u @ b) \<Longrightarrow> u \<noteq> [] \<Longrightarrow> beginsMarker u"
proof -
  assume a: "beginsMarker (u @ b)" and ne: "u \<noteq> []"
  then obtain m where m: "isIncludeMarker m" and p: "prefix (u @ b) m \<or> prefix m (u @ b)"
    by (auto simp: beginsMarker_def)
  from p have "prefix u m \<or> prefix m u"
  proof
    assume "prefix (u @ b) m"
    then show ?thesis by (auto simp: prefix_def)
  next
    assume "prefix m (u @ b)"
    then obtain zs where "u @ b = m @ zs" by (auto simp: prefix_def)
    from append_eq_prefix [OF this] show ?thesis .
  qed
  with m ne show ?thesis by (auto simp: beginsMarker_def)
qed

lemma quiet_Nil: "quiet []"
  by (simp add: quiet_def beginsMarker_def)

lemma quiet_append: "quiet a \<Longrightarrow> quiet b \<Longrightarrow> quiet (a @ b)"
proof -
  assume a: "quiet a" and b: "quiet b"
  show ?thesis
    unfolding quiet_def
  proof (intro allI impI)
    fix u assume "suffix u (a @ b)"
    then consider "suffix u b" | u' where "u = u' @ b" "suffix u' a"
      by (auto simp: suffix_append)
    then show "\<not> beginsMarker u"
    proof cases
      case 1
      with b show ?thesis by (simp add: quiet_def)
    next
      case 2
      show ?thesis
      proof (cases "u' = []")
        case True
        with 2 b show ?thesis by (simp add: quiet_def)
      next
        case False
        from a 2(2) have "\<not> beginsMarker u'" by (simp add: quiet_def)
        with beginsMarker_append [of u' b] False 2(1) show ?thesis by blast
      qed
    qed
  qed
qed

lemma quiet_Cons: "quiet (c # s) \<Longrightarrow> quiet s"
  by (auto simp: quiet_def intro: suffix_ConsI)

lemma quiet_no_match:
  assumes "quiet a" and "a \<noteq> []"
  shows "matchInclude (a @ ext) = None"
proof (rule ccontr)
  assume "matchInclude (a @ ext) \<noteq> None"
  then obtain tag refId rest where m: "matchInclude (a @ ext) = Some ((tag, refId), rest)"
    by auto
  from matchInclude_marker [OF m] have t: "isIncludeMarker tag" .
  from matchInclude_sound [OF m] have "a @ ext = tag @ rest" by simp
  then have "prefix a tag \<or> prefix tag a" by (rule append_eq_prefix)
  with t assms(2) have "beginsMarker a" by (auto simp: beginsMarker_def)
  with assms(1) show False by (auto simp: quiet_def)
qed

lemma regexScan_quiet: "quiet s \<Longrightarrow> regexScan matchInclude s = ([], s)"
proof (induction s)
  case Nil
  then show ?case by simp
next
  case (Cons c s)
  from quiet_no_match [OF Cons.prems, of "[]"] have "matchInclude (c # s) = None" by simp
  with Cons quiet_Cons [OF Cons.prems] show ?case by simp
qed

lemma includeMatches_quiet: "quiet s \<Longrightarrow> includeMatches s = []"
  by (simp add: includeMatches_def regexScan_quiet)

lemma isIncludeMarker_nonempty: "isIncludeMarker t \<Longrightarrow> t \<noteq> []"
  by (auto simp: isIncludeMarker_def)

lemma first_occurrence_quiet:
  assumes "isIncludeMarker t"
  shows "quiet a \<Longrightarrow> splitFirst t (a @ t @ b) = Some (a, b)"
proof (induction a)
  case Nil
  from assms have "t \<noteq> []" by (rule isIncludeMarker_nonempty)
  then obtain c cs where c: "t @ b = c # cs" by (cases t) auto
  have "stripPrefix t (t @ b) = Some b" by (simp add: stripPrefix_iff)
  then show ?case using c by (simp del: stripPrefix.simps)
next
  case (Cons c a)
  have "stripPrefix t (c # a @ t @ b) = None"
  proof (rule ccontr)
    assume "stripPrefix t (c # a @ t @ b) \<noteq> None"
    then obtain r where "stripPrefix t (c # a @ t @ b) = Some r" by auto
    then have e: "(c # a) @ t @ b = t @ r" by (simp add: stripPrefix_iff)
    then have "prefix (c # a) t \<or> prefix t (c # a)" by (rule append_eq_prefix)
    with assms have "beginsMarker (c # a)" by (auto simp: beginsMarker_def)
    with Cons.prems show False by (auto simp: quiet_def)
  qed
  moreover from Cons quiet_Cons [OF Cons.prems] have "splitFirst t (a @ t @ b) = Some (a, b)" by simp
  ultimately show ?case by (simp del: stripPrefix.simps)
qed

lemma jsReplace_quiet:
  assumes "isIncludeMarker t" and "quiet a" and "noPattern y"
  shows "jsReplace (a @ t @ b) t y = a @ y @ b"
  by (simp add: jsReplace_def first_occurrence_quiet [OF assms(1,2)] getSubstitution_noPattern [OF assms(3)])

lemma inert_suffix: "inert s \<Longrightarrow> suffix u s \<Longrightarrow> inert u"
proof (induction s)
  case Nil
  then show ?case by simp
next
  case (Cons c s)
  from Cons.prems(2) consider "u = c # s" | "suffix u s" by (auto simp: suffix_Cons)
  then show ?case using Cons by cases auto
qed

lemma isIncludeMarker_compat:
  assumes "isIncludeMarker m"
  shows "\<exists>tl. stripPrefixCI ''<include'' m = Some tl"
proof -
  from assms obtain name tl where "m = name @ tl" "map canonicalize name = map canonicalize ''<include''"
    unfolding isIncludeMarker_def ciEqual_def by (metis append.assoc)
  then show ?thesis unfolding stripPrefixCI_iff by blast
qed

lemma inert_quiet: "inert s \<Longrightarrow> quiet s"
  unfolding quiet_def
proof (intro allI impI notI)
  fix u assume i: "inert s" and s: "suffix u s" and b: "beginsMarker u"
  from b obtain m where ne: "u \<noteq> []" and m: "isIncludeMarker m" and p: "prefix u m \<or> prefix m u"
    by (auto simp: beginsMarker_def)
  from isIncludeMarker_compat [OF m] obtain tl where tl: "stripPrefixCI ''<include'' m = Some tl" ..
  have "compatCI ''<include'' u"
    using p
  proof
    assume "prefix u m"
    then obtain z where "m = u @ z" by (auto simp: prefix_def)
    with stripPrefixCI_compat [OF tl] show ?thesis using compatCI_append by blast
  next
    assume "prefix m u"
    then obtain z where z: "u = m @ z" by (auto simp: prefix_def)
    from tl have "stripPrefixCI ''<include'' (m @ z) = Some (tl @ z)"
      unfolding stripPrefixCI_iff by auto
    from stripPrefixCI_compat [OF this] z show ?thesis by simp
  qed
  moreover from inert_suffix [OF i s] ne have "\<not> compatCI ''<include'' u" by (cases u) auto
  ultimately show False by simp
qed

lemma map_eq_set: "map f xs = map f ys \<Longrightarrow> c \<in> set xs \<Longrightarrow> f c \<in> set (map f ys)"
  by (metis image_eqI list.set_map)

lemma closing_not_head:
  "\<not> (isSpace (CHR ''/'') \<or> CHR ''/'' = CHR ''='' \<or> canonicalize (CHR ''/'') \<in> set (map canonicalize ''<includerefid''))"
  by code_simp

lemma beginsMarker_quotefree:
  assumes "beginsMarker u" and "\<forall>c\<in>set u. \<not> isQuote c"
  shows "\<forall>c\<in>set u. isSpace c \<or> c = CHR ''='' \<or> canonicalize c \<in> set (map canonicalize ''<includerefid'')"
proof -
  from assms(1) obtain name w1 attr w2 w3 q1 R where
    p: "prefix u (name @ w1 @ attr @ w2 @ ''='' @ w3 @ [q1] @ R) \<or> prefix (name @ w1 @ attr @ w2 @ ''='' @ w3 @ [q1] @ R) u"
    and n: "map canonicalize name = map canonicalize ''<include''"
    and a: "map canonicalize attr = map canonicalize ''refid''"
    and w: "list_all isSpace w1" "list_all isSpace w2" "list_all isSpace w3"
    and q: "isQuote q1"
    unfolding beginsMarker_def isIncludeMarker_def ciEqual_def by blast
  let ?P = "name @ w1 @ attr @ w2 @ ''='' @ w3"
  have "prefix u ?P"
  proof (rule ccontr)
    assume np: "\<not> prefix u ?P"
    from p have "q1 \<in> set u"
    proof
      assume "prefix u (name @ w1 @ attr @ w2 @ ''='' @ w3 @ [q1] @ R)"
      then have "prefix u (?P @ q1 # R)" by simp
      then obtain us where "u = ?P @ us" "prefix us (q1 # R)" using np
        unfolding prefix_append by blast
      with np show ?thesis by (cases us) (auto simp: prefix_Cons)
    next
      assume "prefix (name @ w1 @ attr @ w2 @ ''='' @ w3 @ [q1] @ R) u"
      then show ?thesis by (auto simp: prefix_def)
    qed
    with assms(2) q show False by blast
  qed
  then have sub: "set u \<subseteq> set ?P" by (rule set_mono_prefix)
  show ?thesis
  proof
    fix c assume "c \<in> set u"
    with sub have "c \<in> set name \<or> c \<in> set w1 \<or> c \<in> set attr \<or> c \<in> set w2 \<or> c = CHR ''='' \<or> c \<in> set w3"
      by auto
    then show "isSpace c \<or> c = CHR ''='' \<or> canonicalize c \<in> set (map canonicalize ''<includerefid'')"
      using map_eq_set [OF n, of c] map_eq_set [OF a, of c] w
      by (auto simp: list_all_iff)
  qed
qed

lemma closed_quiet:
  assumes "\<forall>c\<in>set s. \<not> isQuote c"
  shows "quiet (s @ '' */'')"
  unfolding quiet_def
proof (intro allI impI notI)
  fix u assume s: "suffix u (s @ '' */'')" and b: "beginsMarker u"
  from b have ne: "u \<noteq> []" by (simp add: beginsMarker_def)
  from s obtain z where z: "s @ '' */'' = z @ u" by (auto simp: suffix_def)
  then have "set u \<subseteq> set (s @ '' */'')" by (metis set_append sup_ge2)
  with assms have qf: "\<forall>c\<in>set u. \<not> isQuote c" by (auto simp: isQuote_def)
  from z ne have "last u = last (s @ '' */'')" by (metis last_appendR)
  then have "last u = CHR ''/''" by simp
  with ne have "CHR ''/'' \<in> set u" by (metis last_in_set)
  with beginsMarker_quotefree [OF b qf] closing_not_head show False by blast
qed

lemma note_quiet:
  assumes "\<forall>c\<in>set refId. \<not> isQuote c"
  shows "quiet (circularNote refId)" "quiet (notFoundNote refId)"
proof -
  have "quiet (''/* Circular reference detected: '' @ refId @ '' */'')"
    by (rule quiet_append [OF inert_quiet closed_quiet [OF assms]]) (rule no_lt_inert, simp)
  then show "quiet (circularNote refId)" by (simp add: circularNote_def)
  have "quiet (''/* Fragment not found: '' @ refId @ '' */'')"
    by (rule quiet_append [OF inert_quiet closed_quiet [OF assms]]) (rule no_lt_inert, simp)
  then show "quiet (notFoundNote refId)" by (simp add: notFoundNote_def)
qed

section \<open>Resolution of clean text\<close>

lemma resolveLoop_quiet:
  assumes "list_all2 (\<lambda>(gap, tag, refId) x.
              quiet gap \<and> isIncludeMarker tag \<and> quiet x \<and> plain x \<and>
              (\<forall>res. replaceInclude rec F V (tag, refId) res = Some (jsReplace res tag x))) ms xs"
    and "quiet done"
  shows "resolveLoop rec F V (map snd ms) (done @ segText ms g) = Some (done @ substituted ms xs g)"
  using assms
proof (induction ms xs arbitrary: "done" rule: list_all2_induct)
  case Nil
  then show ?case by (simp add: segText_def substituted_def)
next
  case (Cons m ms x xs)
  obtain gap tag refId where m: "m = (gap, tag, refId)" by (cases m)
  from Cons.hyps(1) m have
    gap: "quiet gap" and tag: "isIncludeMarker tag" and
    x: "quiet x" "plain x" and
    rep: "\<And>res. replaceInclude rec F V (tag, refId) res = Some (jsReplace res tag x)"
    by auto
  have a: "quiet (done @ gap)" using Cons.prems gap by (rule quiet_append)
  have "jsReplace ((done @ gap) @ tag @ segText ms g) tag x = (done @ gap) @ x @ segText ms g"
    by (rule jsReplace_quiet [OF tag a plain_noPattern [OF x(2)]])
  then have r1: "replaceInclude rec F V (tag, refId) (done @ segText (m # ms) g)
      = Some ((done @ gap @ x) @ segText ms g)"
    by (simp add: rep m segText_def)
  have "quiet (done @ gap @ x)" using quiet_append [OF a x(1)] by simp
  from Cons.IH [OF this]
  have "resolveLoop rec F V (map snd ms) ((done @ gap @ x) @ segText ms g)
      = Some ((done @ gap @ x) @ substituted ms xs g)" .
  with r1 show ?case by (simp add: m substituted_def)
qed

lemma substituted_quiet:
  assumes "list_all2 (\<lambda>(gap, tag, refId) x. quiet gap \<and> quiet x) ms xs" and "quiet g"
  shows "quiet (substituted ms xs g)"
  using assms
  by (induction ms xs rule: list_all2_induct) (auto simp: substituted_def intro!: quiet_append)

lemma substituted_plain:
  assumes "list_all2 (\<lambda>(gap, tag, refId) x. plain gap \<and> plain x) ms xs" and "plain g"
  shows "plain (substituted ms xs g)"
  using assms
  by (induction ms xs rule: list_all2_induct) (auto simp: substituted_def intro!: plain_append)

lemma collect_bounds:
  assumes "\<forall>m \<in> set ms. \<exists>x N. Q m x \<and> (\<forall>d\<ge>N. P (d::nat) m x)"
  shows "\<exists>xs N. list_all2 Q ms xs \<and> (\<forall>d\<ge>N. list_all2 (P d) ms xs)"
  using assms
proof (induction ms)
  case Nil
  then show ?case by simp
next
  case (Cons m ms)
  then obtain xs N where xs: "list_all2 Q ms xs" "\<forall>d\<ge>N. list_all2 (P d) ms xs" by auto
  from Cons.prems obtain x N' where x: "Q m x" "\<forall>d\<ge>N'. P d m x" by auto
  have "list_all2 Q (m # ms) (x # xs)" using xs x by simp
  moreover have "\<forall>d\<ge>max N N'. list_all2 (P d) (m # ms) (x # xs)"
  proof (intro allI impI)
    fix d assume "max N N' \<le> d"
    then have "N \<le> d" "N' \<le> d" by simp_all
    with xs x show "list_all2 (P d) (m # ms) (x # xs)" by simp
  qed
  ultimately show ?case by blast
qed

lemma returns_unique: "returns F V s r \<Longrightarrow> returns F V s r' \<Longrightarrow> r = r'"
proof -
  assume "returns F V s r" "returns F V s r'"
  then obtain N N' where a: "\<forall>d\<ge>N. resolveIncludes d s F V = Some r"
    and b: "\<forall>d\<ge>N'. resolveIncludes d s F V = Some r'"
    by (auto simp: returns_def)
  have "N \<le> max N N'" "N' \<le> max N N'" by simp_all
  with a b have "resolveIncludes (max N N') s F V = Some r"
    "resolveIncludes (max N N') s F V = Some r'"
    by blast+
  then show ?thesis by simp
qed

lemma clean_segments:
  assumes "clean F s" and "regexScan matchInclude s = (ms, g)"
  shows "quiet g"
    "\<And>gap tag refId. (gap, tag, refId) \<in> set ms \<Longrightarrow> quiet gap \<and> (noted F refId \<longrightarrow> noPattern refId)"
  using assms by (auto simp: clean_def list_all_iff)

lemma tame_segments:
  assumes "tame F s" and "regexScan matchInclude s = (ms, g)"
  shows "plain g" "\<And>gap tag refId. (gap, tag, refId) \<in> set ms \<Longrightarrow> plain gap"
  using assms by (auto simp: tame_def list_all_iff)

lemma tame_clean: "tame F s \<Longrightarrow> clean F s"
  by (simp add: tame_def)

lemma cycle_noted: "(refersTo F)\<^sup>+\<^sup>+ a a \<Longrightarrow> noted F a"
  by (simp add: noted_def split: option.splits)

lemma missing_noted: "F a = None \<or> F a = Some [] \<Longrightarrow> noted F a"
  by (auto simp: noted_def)

lemma holder_step:
  assumes "\<forall>v\<in>V. \<exists>w. (refersTo F)\<^sup>*\<^sup>* v w \<and> F w = Some s"
    and "a \<in> snd ` set (includeMatches s)" and "F a = Some c"
  shows "\<forall>v\<in>insert a V. \<exists>w. (refersTo F)\<^sup>*\<^sup>* v w \<and> F w = Some c"
proof
  fix v assume "v \<in> insert a V"
  then consider "v = a" | "v \<in> V" by auto
  then show "\<exists>w. (refersTo F)\<^sup>*\<^sup>* v w \<and> F w = Some c"
  proof cases
    case 1
    with assms(3) show ?thesis by auto
  next
    case 2
    with assms(1) obtain w where w: "(refersTo F)\<^sup>*\<^sup>* v w" "F w = Some s" by blast
    from w(2) assms(2) have "refersTo F w a" by (auto simp: refersTo_def)
    with w(1) have "(refersTo F)\<^sup>*\<^sup>* v a" by (rule rtranclp.rtrancl_into_rtrancl)
    with assms(3) show ?thesis by blast
  qed
qed

lemma visited_cycle:
  assumes "\<forall>v\<in>V. \<exists>w. (refersTo F)\<^sup>*\<^sup>* v w \<and> F w = Some s"
    and "a \<in> snd ` set (includeMatches s)" and "a \<in> V"
  shows "(refersTo F)\<^sup>+\<^sup>+ a a"
proof -
  from assms(1,3) obtain w where w: "(refersTo F)\<^sup>*\<^sup>* a w" "F w = Some s" by blast
  from w(2) assms(2) have "refersTo F w a" by (auto simp: refersTo_def)
  with w(1) show ?thesis by (rule rtranclp_into_tranclp1)
qed

lemma resolve_clean:
  assumes fin: "finite (dom F)"
    and closed: "\<forall>a\<in>R. \<forall>c. F a = Some c \<longrightarrow> tame F c \<and> snd ` set (includeMatches c) \<subseteq> R"
  shows "clean F s \<Longrightarrow> snd ` set (includeMatches s) \<subseteq> R \<Longrightarrow>
         \<forall>v\<in>V. \<exists>w. (refersTo F)\<^sup>*\<^sup>* v w \<and> F w = Some s \<Longrightarrow>
         regexScan matchInclude s = (ms, g) \<Longrightarrow>
         \<exists>r xs. returns F V s r \<and> quiet r \<and> (tame F s \<longrightarrow> plain r) \<and>
                list_all2 (\<lambda>(gap, tag, refId) x. markerText F V refId x) ms xs \<and>
                r = substituted ms xs g"
proof (induction "card (dom F - V)" arbitrary: V s ms g rule: less_induct)
  case less
  note cl = clean_segments [OF less.prems(1,4)]
  note scan = less.prems(4)
  have im: "includeMatches s = map snd ms" by (simp add: includeMatches_def scan)
  let ?Q = "\<lambda>m x. case m of (gap, tag, refId) \<Rightarrow>
      quiet gap \<and> isIncludeMarker tag \<and> quiet x \<and> plain x \<and> markerText F V refId x"
  let ?P = "\<lambda>d m x. case m of (gap, tag, refId) \<Rightarrow>
      \<forall>res. replaceInclude (\<lambda>s v. resolveIncludes d s F v) F V (tag, refId) res
            = Some (jsReplace res tag x)"
  have "\<forall>m\<in>set ms. \<exists>x N. ?Q m x \<and> (\<forall>d\<ge>N. ?P d m x)"
  proof
    fix m assume mem: "m \<in> set ms"
    obtain gap tag refId where m: "m = (gap, tag, refId)" by (cases m)
    from cl(2) mem m have g: "quiet gap" and rid: "noted F refId \<longrightarrow> noPattern refId" by auto
    from segment_marker [OF scan] mem m
    have v: "isIncludeMarker tag" and qf: "\<forall>c\<in>set refId. \<not> isQuote c" by auto
    from mem m have ids: "refId \<in> snd ` set (includeMatches s)" by (force simp: im)
    consider (visited) "refId \<in> V"
      | (missing) "refId \<notin> V" "F refId = None \<or> F refId = Some []"
      | (found) c where "refId \<notin> V" "F refId = Some c" "c \<noteq> []"
      by (cases "F refId") auto
    then show "\<exists>x N. ?Q m x \<and> (\<forall>d\<ge>N. ?P d m x)"
    proof cases
      case visited
      from visited_cycle [OF less.prems(3) ids visited] rid have "noPattern refId"
        by (simp add: cycle_noted)
      then have "?Q m (circularNote refId)"
        using g v visited note_quiet(1) [OF qf]
        by (simp add: m circularNote_plain markerText_def)
      moreover have "\<forall>d\<ge>0. ?P d m (circularNote refId)"
        using visited by (simp add: m replaceInclude_def)
      ultimately show ?thesis by blast
    next
      case missing
      from missing_noted [of F refId] missing(2) rid have "noPattern refId" by blast
      then have "?Q m (notFoundNote refId)"
        using g v missing note_quiet(2) [OF qf]
        by (auto simp: m notFoundNote_plain markerText_def)
      moreover have "\<forall>d\<ge>0. ?P d m (notFoundNote refId)"
        using missing by (auto simp: m replaceInclude_def)
      ultimately show ?thesis by blast
    next
      case found
      from ids less.prems(2) have "refId \<in> R" by blast
      with closed found(2) have tc: "tame F c" and sub: "snd ` set (includeMatches c) \<subseteq> R"
        by blast+
      from found(1,2) have "dom F - insert refId V \<subset> dom F - V" by auto
      with fin have card: "card (dom F - insert refId V) < card (dom F - V)"
        by (simp add: psubset_card_mono)
      obtain ms' g' where sc: "regexScan matchInclude c = (ms', g')"
        by (cases "regexScan matchInclude c")
      from less.hyps [OF card tame_clean [OF tc] sub holder_step [OF less.prems(3) ids found(2)] sc] tc
      obtain x where x: "returns F (insert refId V) c x" "quiet x" "plain x"
        by blast
      then obtain N where N: "\<forall>d\<ge>N. resolveIncludes d c F (insert refId V) = Some x"
        by (auto simp: returns_def)
      have "?Q m x" using g v x found by (simp add: m markerText_def)
      moreover have "\<forall>d\<ge>N. ?P d m x" using N found by (simp add: m replaceInclude_def)
      ultimately show ?thesis by blast
    qed
  qed
  from collect_bounds [OF this]
  obtain xs N where Q: "list_all2 ?Q ms xs" and P: "\<forall>d\<ge>N. list_all2 (?P d) ms xs" by blast
  let ?r = "substituted ms xs g"
  have ir: "quiet ?r"
    by (rule substituted_quiet [OF list_all2_mono [OF Q] cl(1)]) auto
  have pr: "plain ?r" if t: "tame F s"
  proof -
    note tm = tame_segments [OF t scan]
    have "list_all2 (\<lambda>(gap, tag, refId) x. plain gap \<and> plain x) ms xs"
      using Q tm(2) unfolding list_all2_conv_all_nth
      by (auto simp: split_def) (metis nth_mem prod.collapse)
    from substituted_plain [OF this tm(1)] show ?thesis .
  qed
  have mt: "list_all2 (\<lambda>(gap, tag, refId) x. markerText F V refId x) ms xs"
    by (rule list_all2_mono [OF Q]) auto
  have s: "s = segText ms g" by (rule includeMatches_segText [OF scan])
  have "resolveIncludes d s F V = Some ?r" if d: "Suc N \<le> d" for d
  proof -
    from d obtain d' where d': "d = Suc d'" "N \<le> d'" by (cases d) auto
    with P have "list_all2 (?P d') ms xs" by blast
    with Q have "list_all2 (\<lambda>m x. ?Q m x \<and> ?P d' m x) ms xs"
      by (simp add: list_all2_conv_all_nth)
    then have "list_all2 (\<lambda>(gap, tag, refId) x.
              quiet gap \<and> isIncludeMarker tag \<and> quiet x \<and> plain x \<and>
              (\<forall>res. replaceInclude (\<lambda>s v. resolveIncludes d' s F v) F V (tag, refId) res
                 = Some (jsReplace res tag x))) ms xs"
      by (rule list_all2_mono) auto
    from resolveLoop_quiet [OF this quiet_Nil, of g]
    have "resolveLoop (\<lambda>s v. resolveIncludes d' s F v) F V (includeMatches s) s = Some ?r"
      by (simp add: im s [symmetric])
    then show ?thesis
      unfolding d'(1) resolveIncludes_unfold by (simp add: includeMatches_quiet [OF ir])
  qed
  then have "returns F V s ?r" by (auto simp: returns_def)
  with ir pr mt show ?case by blast
qed

lemma substituted_contains:
  assumes "length xs = length ms" and "i < length ms"
  shows "\<exists>pre post. substituted ms xs g = pre @ xs ! i @ post"
  using assms
proof (induction ms arbitrary: xs i)
  case Nil
  then show ?case by simp
next
  case (Cons m ms)
  then obtain x xs' where xs: "xs = x # xs'" by (cases xs) auto
  obtain gap tag refId where m: "m = (gap, tag, refId)" by (cases m)
  show ?case
  proof (cases i)
    case 0
    have "substituted (m # ms) xs g = gap @ xs ! i @ substituted ms xs' g"
      by (simp add: substituted_def xs m 0)
    then show ?thesis by blast
  next
    case (Suc j)
    with Cons.prems xs have "length xs' = length ms" "j < length ms" by simp_all
    from Cons.IH [OF this] obtain pre post where "substituted ms xs' g = pre @ xs' ! j @ post"
      by blast
    then have "substituted (m # ms) xs g = (gap @ x @ pre) @ xs ! i @ post"
      by (simp add: substituted_def xs m Suc)
    then show ?thesis by blast
  qed
qed

lemma includeMatches_segment:
  assumes "regexScan matchInclude s = (ms, g)" and "a \<in> snd ` set (includeMatches s)"
  shows "\<exists>i gap tag. i < length ms \<and> ms ! i = (gap, tag, a)"
proof -
  from assms obtain gap tag where "(gap, tag, a) \<in> set ms"
    by (auto simp: includeMatches_def)
  then show ?thesis by (metis in_set_conv_nth)
qed

lemma circular_found:
  assumes fin: "finite (dom F)"
    and closed: "\<forall>a\<in>R. \<forall>c. F a = Some c \<longrightarrow> tame F c \<and> snd ` set (includeMatches c) \<subseteq> R"
  shows "clean F s \<Longrightarrow> snd ` set (includeMatches s) \<subseteq> R \<Longrightarrow>
         \<forall>v\<in>V. \<exists>w. (refersTo F)\<^sup>*\<^sup>* v w \<and> F w = Some s \<Longrightarrow>
         a \<in> snd ` set (includeMatches s) \<Longrightarrow> (refersTo F)\<^sup>*\<^sup>* a x \<Longrightarrow> (refersTo F)\<^sup>+\<^sup>+ x x \<Longrightarrow>
         returns F V s r \<Longrightarrow>
         \<exists>y pre post. (refersTo F)\<^sup>+\<^sup>+ y y \<and> r = pre @ circularNote y @ post"
proof (induction "card (dom F - V)" arbitrary: V s a r rule: less_induct)
  case less
  obtain ms g where scan: "regexScan matchInclude s = (ms, g)"
    by (cases "regexScan matchInclude s")
  from resolve_clean [OF fin closed less.prems(1,2,3) scan]
  obtain r0 xs where r0: "returns F V s r0"
    and mt: "list_all2 (\<lambda>(gap, tag, refId) x. markerText F V refId x) ms xs"
    and sub: "r0 = substituted ms xs g" by blast
  from returns_unique [OF less.prems(7) r0] sub have r: "r = substituted ms xs g" by simp
  from includeMatches_segment [OF scan less.prems(4)]
  obtain i gap tag where i: "i < length ms" "ms ! i = (gap, tag, a)" by blast
  from mt have len: "length xs = length ms" by (simp add: list_all2_lengthD)
  from list_all2_nthD [OF mt i(1)] i(2) have mi: "markerText F V a (xs ! i)" by simp
  from substituted_contains [OF len i(1), of g] r
  obtain pre post where rx: "r = pre @ xs ! i @ post" by auto
  show ?case
  proof (cases "a \<in> V")
    case True
    from visited_cycle [OF less.prems(3,4) True] have "(refersTo F)\<^sup>+\<^sup>+ a a" .
    moreover from mi True have "xs ! i = circularNote a" by (simp add: markerText_def)
    ultimately show ?thesis using rx by blast
  next
    case False
    have "\<exists>b. refersTo F a b \<and> (refersTo F)\<^sup>*\<^sup>* b x"
    proof (cases "a = x")
      case True
      with less.prems(6) show ?thesis by (auto dest: tranclpD)
    next
      case False
      with less.prems(5) show ?thesis by (auto elim: converse_rtranclpE)
    qed
    then obtain b c where b: "(refersTo F)\<^sup>*\<^sup>* b x" and c: "F a = Some c"
      and bc: "b \<in> snd ` set (includeMatches c)"
      by (auto simp: refersTo_def)
    from bc have cne: "c \<noteq> []" by (auto simp: includeMatches_def)
    from less.prems(2,4) have "a \<in> R" by blast
    with closed c have tc: "tame F c" and sc: "snd ` set (includeMatches c) \<subseteq> R" by blast+
    from False c have "dom F - insert a V \<subset> dom F - V" by auto
    with fin have card: "card (dom F - insert a V) < card (dom F - V)"
      by (simp add: psubset_card_mono)
    note inv = holder_step [OF less.prems(3,4) c]
    from mi False c cne have "returns F (insert a V) c (xs ! i)" by (simp add: markerText_def)
    from less.hyps [OF card tame_clean [OF tc] sc inv bc b less.prems(6) this]
    obtain y pre' post' where "(refersTo F)\<^sup>+\<^sup>+ y y" "xs ! i = pre' @ circularNote y @ post'"
      by blast
    with rx have "(refersTo F)\<^sup>+\<^sup>+ y y \<and> r = (pre @ pre') @ circularNote y @ (post' @ post)"
      by simp
    then show ?thesis by blast
  qed
qed

lemma reachable_ids: "snd ` set (includeMatches s) \<subseteq> reachable F s"
  by (auto simp: reachable_def)

lemma reachable_closed:
  assumes "b \<in> reachable F s" and "F b = Some c"
  shows "snd ` set (includeMatches c) \<subseteq> reachable F s"
proof
  fix d assume d: "d \<in> snd ` set (includeMatches c)"
  with assms(2) have "refersTo F b d" by (auto simp: refersTo_def)
  moreover from assms(1) obtain a where "a \<in> snd ` set (includeMatches s)" "(refersTo F)\<^sup>*\<^sup>* a b"
    by (auto simp: reachable_def)
  ultimately show "d \<in> reachable F s"
    unfolding reachable_def by (blast intro: rtranclp.rtrancl_into_rtrancl)
qed

lemma reachable_least:
  assumes "snd ` set (includeMatches s) \<subseteq> R"
    and "\<forall>a\<in>R. \<forall>c. F a = Some c \<longrightarrow> snd ` set (includeMatches c) \<subseteq> R"
  shows "reachable F s \<subseteq> R"
proof
  fix b assume "b \<in> reachable F s"
  then obtain a where a: "a \<in> snd ` set (includeMatches s)" and r: "(refersTo F)\<^sup>*\<^sup>* a b"
    by (auto simp: reachable_def)
  from r show "b \<in> R"
  proof (induction rule: rtranclp_induct)
    case base
    from a assms(1) show ?case by blast
  next
    case (step y z)
    from step(2) obtain c where "F y = Some c" "z \<in> snd ` set (includeMatches c)"
      by (auto simp: refersTo_def)
    with assms(2) step(3) show ?case by blast
  qed
qed

lemma reachable_tame_closed:
  assumes "\<forall>b\<in>reachable F s. \<forall>c. F b = Some c \<longrightarrow> tame F c"
  shows "\<forall>a\<in>reachable F s. \<forall>c. F a = Some c \<longrightarrow> tame F c \<and> snd ` set (includeMatches c) \<subseteq> reachable F s"
  using assms reachable_closed by blast

lemma extractSqlFragments_map_of:
  "extractSqlFragments content = map_of (rev (fragmentDeclarations content))"
  by (simp add: extractSqlFragments_def fold_set_fragments)

lemma extractSqlFragments_finite: "finite (dom (extractSqlFragments content))"
  by (simp add: extractSqlFragments_map_of finite_dom_map_of)

lemma composeSql_returns:
  assumes "extractStatementContent (readFile fs p) sid = Some sql" and "sql \<noteq> []"
    and "returns (extractSqlFragments (readFile fs p)) {} sql r"
  shows "\<exists>N. \<forall>d\<ge>N. composeSql d fs p sid = (Some r, [])"
proof -
  from assms(3) obtain N where
    "\<forall>d\<ge>N. resolveIncludes d sql (extractSqlFragments (readFile fs p)) {} = Some r"
    by (auto simp: returns_def)
  with assms(1,2) have "\<forall>d\<ge>N. composeSql d fs p sid = (Some r, [])"
    by (simp add: composeSql_def Let_def)
  then show ?thesis ..
qed

lemma composeSql_empty_body:
  "extractStatementContent (readFile fs p) sid = Some [] \<Longrightarrow> composeSql depth fs p sid = (None, [])"
  by (simp add: composeSql_def)

section \<open>A marker whose id is a replacement pattern\<close>

text \<open>
  The id \<^verbatim>\<open>$&\<close> is not declared, so its marker is replaced by the note of a missing
  fragment; in the note \<^verbatim>\<open>$&\<close> is read as a pattern and puts the marker back. Every
  pass wraps the marker in one more note and the call never returns: whatever the depth
  of the stack, it is used up, and \<^verbatim>\<open>composeSql\<close> reports the error and returns
  \<^verbatim>\<open>null\<close>.
\<close>

lemma regexScan_inert_prefix:
  "inert a \<Longrightarrow>
   regexScan matchInclude (a @ s) =
     (case regexScan matchInclude s of
        ([], g) \<Rightarrow> ([], a @ g)
      | ((g0, y) # ms, g) \<Rightarrow> ((a @ g0, y) # ms, g))"
proof (induction a)
  case Nil
  then show ?case by (auto split: prod.splits list.splits)
next
  case (Cons c a)
  have "matchInclude (c # a @ s) = None"
  proof (rule ccontr)
    assume "matchInclude (c # a @ s) \<noteq> None"
    then obtain x where "matchInclude ((c # a) @ s) = Some x" by auto
    from matchInclude_start [OF this] obtain r where
      "stripPrefixCI ''<include'' ((c # a) @ s) = Some r" ..
    from stripPrefixCI_compat [OF this] have "compatCI ''<include'' (c # a)"
      by (rule compatCI_append)
    with Cons.prems show False by simp
  qed
  moreover from Cons have "regexScan matchInclude (a @ s) =
     (case regexScan matchInclude s of
        ([], g) \<Rightarrow> ([], a @ g)
      | ((g0, y) # ms, g) \<Rightarrow> ((a @ g0, y) # ms, g))" by simp
  ultimately show ?case by (auto split: prod.splits list.splits)
qed

lemma inert_replicate: "inert x \<Longrightarrow> inert (concat (replicate n x))"
  by (induction n) (auto intro: inert_append)

lemma matchInclude_selfTag: "matchInclude (selfTag @ s) = Some ((selfTag, ''$&''), s)"
  by (simp add: matchInclude_def selfTag_def spaces1_def spaces0_def expectChar_def expectQuote_def
      optionalSlash_def isSpace_def isQuote_def)

lemma regexScan_selfTag:
  assumes "inert rest"
  shows "regexScan matchInclude (selfTag @ rest) = ([([], selfTag, ''$&'')], rest)"
proof -
  have e: "selfTag @ rest = CHR ''<'' # (''include refid=\"$&\"/>'' @ rest)"
    by (simp add: selfTag_def)
  have m: "matchInclude (CHR ''<'' # (''include refid=\"$&\"/>'' @ rest)) = Some ((selfTag, ''$&''), rest)"
    using matchInclude_selfTag [of rest] by (simp only: e)
  have l: "length rest < length (CHR ''<'' # (''include refid=\"$&\"/>'' @ rest))" by simp
  show ?thesis
    unfolding e
    by (subst regexScan.simps(2)) (simp only: m l regexScan_inert [OF assms] option.case prod.case if_True)
qed

lemma includeMatches_wrapped: "includeMatches (wrapped n) = [(selfTag, ''$&'')]"
proof -
  have a: "inert (concat (replicate n ''/* Fragment not found: ''))"
    by (rule inert_replicate) (rule no_lt_inert, simp)
  have b: "inert (concat (replicate n '' */''))"
    by (rule inert_replicate) (rule no_lt_inert, simp)
  show ?thesis
    by (simp add: includeMatches_def wrapped_def regexScan_inert_prefix [OF a] regexScan_selfTag [OF b])
qed

lemma jsReplace_wrapped: "jsReplace (wrapped n) selfTag (notFoundNote ''$&'') = wrapped (Suc n)"
proof -
  have a: "inert (concat (replicate n ''/* Fragment not found: ''))"
    by (rule inert_replicate) (rule no_lt_inert, simp)
  have s: "stripPrefixCI ''<include'' selfTag = Some '' refid=\"$&\"/>''"
    by (simp add: selfTag_def)
  have g: "getSubstitution selfTag pre post (notFoundNote ''$&'')
      = ''/* Fragment not found: '' @ selfTag @ '' */''" for pre post
    by (simp add: notFoundNote_def)
  have r: "concat (replicate n x) @ x = x @ concat (replicate n x)" for x :: string
    by (induction n) simp_all
  show ?thesis
    unfolding wrapped_def jsReplace_def first_occurrence [OF s a] g
    by (simp add: r)
qed

lemma wrapped_never_returns: "resolveIncludes depth (wrapped n) Map.empty {} = None"
proof (induction depth arbitrary: n)
  case 0
  then show ?case by simp
next
  case (Suc depth)
  have "resolveLoop (\<lambda>s v. resolveIncludes depth s Map.empty v) Map.empty {}
          (includeMatches (wrapped n)) (wrapped n) = Some (wrapped (Suc n))"
    by (simp add: includeMatches_wrapped replaceInclude_def jsReplace_wrapped)
  then show ?case
    unfolding resolveIncludes_unfold by (simp add: includeMatches_wrapped Suc.IH)
qed

lemma selfTagDoc_facts:
  "extractStatementContent selfTagDoc ''q'' = Some selfTag"
  "fragmentDeclarations selfTagDoc = []"
  by code_simp+

lemma dollar_ampersand_never_returns:
  "composeSql depth [''M.xml'' \<mapsto> selfTagDoc] ''M.xml'' ''q'' = (None, [composeError])"
proof -
  have "extractSqlFragments selfTagDoc = Map.empty"
    by (simp add: extractSqlFragments_def selfTagDoc_facts)
  moreover have "wrapped 0 = selfTag" by (simp add: wrapped_def)
  moreover have "selfTag \<noteq> []" by (simp add: selfTag_def)
  ultimately show ?thesis
    using wrapped_never_returns [of depth 0]
    by (simp add: composeSql_def readFile_def selfTagDoc_facts)
qed

section \<open>What a match of the statement pattern implies\<close>

lemma firstMatch_Some: "firstMatch m s = Some b \<Longrightarrow> \<exists>pre t. s = pre @ t \<and> m t = Some b"
proof (induction s)
  case Nil
  then show ?case by simp
next
  case (Cons c s)
  show ?case
  proof (cases "m (c # s)")
    case None
    with Cons obtain pre t where "s = pre @ t" "m t = Some b" by auto
    then have "c # s = (c # pre) @ t \<and> m t = Some b" by simp
    then show ?thesis by blast
  next
    case (Some r)
    with Cons.prems have "c # s = [] @ (c # s) \<and> m (c # s) = Some b" by simp
    then show ?thesis by blast
  qed
qed

lemma longestFirst_Some: "longestFirst p s k = Some b \<Longrightarrow> \<exists>j\<le>k. p (drop j s) = Some b"
proof (induction k)
  case 0
  then show ?case by simp
next
  case (Suc k)
  show ?case
  proof (cases "p (drop (Suc k) s)")
    case None
    with Suc obtain j where "j \<le> k" "p (drop j s) = Some b" by auto
    then show ?thesis using le_Suc_eq by blast
  next
    case (Some r)
    with Suc.prems show ?thesis by auto
  qed
qed

lemma stripPrefixCI_Cons:
  "stripPrefixCI (c # cs) s = stripPrefixCI [c] s \<bind> stripPrefixCI cs"
  by (cases s) auto

lemma matchPatternText_escape:
  "matchPatternText (escapeRegex statementId) s = stripPrefixCI statementId s"
proof (induction statementId arbitrary: s)
  case Nil
  then show ?case by (simp add: escapeRegex_def)
next
  case (Cons c cs)
  have ih: "matchPatternText (escapeRegex cs) = stripPrefixCI cs"
    by (rule ext) (rule Cons.IH)
  have e: "escapeRegex (c # cs)
      = (if c \<in> set ''.*+?^${}()|[]'' \<or> c = CHR 0x5C then [CHR 0x5C, c] else [c]) @ escapeRegex cs"
    by (simp add: escapeRegex_def)
  show ?case
  proof (cases "c \<in> set ''.*+?^${}()|[]'' \<or> c = CHR 0x5C")
    case True
    then have "matchPatternText (escapeRegex (c # cs)) s
        = stripPrefixCI [c] s \<bind> matchPatternText (escapeRegex cs)"
      by (simp add: e del: stripPrefixCI.simps)
    then show ?thesis using stripPrefixCI_Cons [of c cs s] by (simp add: ih del: stripPrefixCI.simps)
  next
    case False
    then have nb: "c \<noteq> CHR 0x5C" by simp
    have "matchPatternText (escapeRegex (c # cs)) s
        = stripPrefixCI [c] s \<bind> matchPatternText (escapeRegex cs)"
    proof (cases "escapeRegex cs")
      case Nil
      with False show ?thesis by (cases "stripPrefixCI [c] s") (simp_all add: e del: stripPrefixCI.simps)
    next
      case (Cons q ps)
      with False nb show ?thesis by (simp add: e del: stripPrefixCI.simps)
    qed
    then show ?thesis using stripPrefixCI_Cons [of c cs s] by (simp add: ih del: stripPrefixCI.simps)
  qed
qed

lemma find_SomeD: "List.find P xs = Some x \<Longrightarrow> x \<in> set xs \<and> P x"
  by (induction xs) (auto split: if_splits)

lemma take_takeWhile:
  assumes "j \<le> length (takeWhile P s)"
  shows "\<forall>c\<in>set (take j s). P c"
proof -
  have "take j s = take j (takeWhile P s @ dropWhile P s)" by simp
  also have "\<dots> = take j (takeWhile P s)" using assms by (simp del: takeWhile_dropWhile_id)
  finally show ?thesis by (auto dest!: in_set_takeD set_takeWhileD)
qed

lemma matchKind_Some:
  assumes "matchKind s = Some (kind, rest)"
  shows "s = kind @ rest \<and> (\<exists>k \<in> set [''select'', ''insert'', ''update'', ''delete'']. ciEqual kind k)"
proof -
  from assms obtain k where
    f: "List.find (\<lambda>k. stripPrefixCI k s \<noteq> None) [''select'', ''insert'', ''update'', ''delete''] = Some k"
    and kr: "kind = take (length k) s" "rest = drop (length k) s"
    by (auto simp: matchKind_def split: option.splits)
  from find_SomeD [OF f]
  have k: "k \<in> set [''select'', ''insert'', ''update'', ''delete'']" "stripPrefixCI k s \<noteq> None"
    by blast+
  then obtain r u where u: "s = u @ r" "map canonicalize u = map canonicalize k"
    by (auto simp: stripPrefixCI_iff simp del: stripPrefixCI.simps)
  from u(2) have "length (map canonicalize u) = length (map canonicalize k)" by simp
  then have "length u = length k" by simp
  with u kr have "kind = u" "s = kind @ rest" by simp_all
  with u(2) k(1) show ?thesis unfolding ciEqual_def by blast
qed

lemma splitFirstCI_Some:
  "splitFirstCI p s = Some (b, a) \<Longrightarrow> \<exists>u. s = b @ u @ a \<and> map canonicalize u = map canonicalize p"
proof (induction p s arbitrary: b rule: splitFirstCI.induct)
  case (1 pat)
  then show ?case by (auto split: if_splits)
next
  case (2 pat c cs)
  show ?case
  proof (cases "stripPrefixCI pat (c # cs)")
    case None
    with "2.prems" obtain b' where b': "splitFirstCI pat cs = Some (b', a)" "b = c # b'"
      by auto
    from "2.IH" [OF None b'(1)] obtain u where "cs = b' @ u @ a" "map canonicalize u = map canonicalize pat"
      by blast
    with b'(2) have "c # cs = b @ u @ a \<and> map canonicalize u = map canonicalize pat" by simp
    then show ?thesis by blast
  next
    case (Some r)
    with "2.prems" have e: "b = []" "r = a" by auto
    from Some obtain u where "c # cs = u @ r" "map canonicalize u = map canonicalize pat"
      unfolding stripPrefixCI_iff by blast
    with e have "c # cs = b @ u @ a \<and> map canonicalize u = map canonicalize pat" by simp
    then show ?thesis by blast
  qed
qed

lemma matchFromId_Some:
  assumes "matchFromId kind statementId u = Some b"
  shows "\<exists>name w1 w2 q1 ident q2 attrs' body closing post.
           u = name @ w1 @ ''='' @ w2 @ [q1] @ ident @ [q2] @ attrs' @ ''>'' @ body @ closing @ post
           \<and> ciEqual name ''id'' \<and> list_all isSpace w1 \<and> list_all isSpace w2
           \<and> isQuote q1 \<and> isQuote q2 \<and> ciEqual ident statementId
           \<and> CHR ''>'' \<notin> set attrs' \<and> ciEqual closing (''</'' @ kind @ ''>'')"
proof -
  from assms obtain u1 u2 u3 u4 u5 u6 body post where
    1: "stripPrefixCI ''id'' u = Some u1" and
    2: "expectChar (CHR ''='') (spaces0 u1) = Some u2" and
    3: "expectQuote (spaces0 u2) = Some u3" and
    4: "matchPatternText (escapeRegex statementId) u3 = Some u4" and
    5: "expectQuote u4 = Some u5" and
    6: "expectChar (CHR ''>'') (dropWhile (\<lambda>c. c \<noteq> CHR ''>'') u5) = Some u6" and
    7: "splitFirstCI (''</'' @ kind @ ''>'') u6 = Some (body, post)"
    by (auto simp: matchFromId_def bind_eq_Some_conv simp del: stripPrefixCI.simps splitFirstCI.simps)
  from 1 obtain name where n: "u = name @ u1" "ciEqual name ''id''"
    by (auto simp: stripPrefixCI_iff ciEqual_def simp del: stripPrefixCI.simps)
  from spaces0_split [of u1] obtain w1 where w1: "u1 = w1 @ spaces0 u1" "list_all isSpace w1" by blast
  from 2 have e2: "spaces0 u1 = CHR ''='' # u2"
    by (auto simp: expectChar_def split: list.splits if_splits)
  from spaces0_split [of u2] obtain w2 where w2: "u2 = w2 @ spaces0 u2" "list_all isSpace w2" by blast
  from 3 obtain q1 where q1: "spaces0 u2 = q1 # u3" "isQuote q1"
    by (auto simp: expectQuote_def split: list.splits if_splits)
  from 4 obtain ident where i: "u3 = ident @ u4" "ciEqual ident statementId"
    by (auto simp: matchPatternText_escape stripPrefixCI_iff ciEqual_def)
  from 5 obtain q2 where q2: "u4 = q2 # u5" "isQuote q2"
    by (auto simp: expectQuote_def split: list.splits if_splits)
  from 6 have e6: "dropWhile (\<lambda>c. c \<noteq> CHR ''>'') u5 = CHR ''>'' # u6"
    by (auto simp: expectChar_def split: list.splits if_splits)
  let ?attrs = "takeWhile (\<lambda>c. c \<noteq> CHR ''>'') u5"
  have a: "u5 = ?attrs @ ''>'' @ u6" "CHR ''>'' \<notin> set ?attrs"
    using e6 takeWhile_dropWhile_id [of "\<lambda>c. c \<noteq> CHR ''>''" u5]
    by (auto dest: set_takeWhileD)
  from splitFirstCI_Some [OF 7] obtain closing where
    c: "u6 = body @ closing @ post" "ciEqual closing (''</'' @ kind @ ''>'')"
    by (auto simp: ciEqual_def)
  have "u1 = w1 @ ''='' @ u2" using w1(1) e2 by simp
  moreover have "u2 = w2 @ [q1] @ u3" using w2(1) q1(1) by simp
  moreover have "u3 = ident @ [q2] @ u5" using i(1) q2(1) by simp
  ultimately have "u = name @ w1 @ ''='' @ w2 @ [q1] @ ident @ [q2] @ ?attrs @ ''>'' @ body @ closing @ post"
    using n(1) a(1) c(1) by simp
  with n(2) w1(2) w2(2) q1(2) q2(2) i(2) a(2) c(2) show ?thesis by blast
qed

lemma matchStatement_Some:
  assumes "matchStatement statementId t = Some b"
  shows "statementWithId ciEqual t statementId"
proof -
  from assms obtain t0 kind t1 t2 where
    1: "expectChar (CHR ''<'') t = Some t0" and
    2: "matchKind t0 = Some (kind, t1)" and
    3: "spaces1 t1 = Some t2" and
    4: "longestFirst (matchFromId kind statementId) t2
          (length (takeWhile (\<lambda>c. c \<noteq> CHR ''>'') t2)) = Some b"
    by (auto simp: matchStatement_def bind_eq_Some_conv)
  from 1 have t: "t = ''<'' @ t0" by (auto simp: expectChar_def split: list.splits if_splits)
  from matchKind_Some [OF 2] have k: "t0 = kind @ t1"
    "\<exists>k \<in> set [''select'', ''insert'', ''update'', ''delete'']. ciEqual kind k" by simp_all
  from spaces1_split [OF 3] obtain sp where sp: "t1 = sp @ t2" "sp \<noteq> []" "list_all isSpace sp"
    by blast
  from longestFirst_Some [OF 4] obtain j where
    j: "j \<le> length (takeWhile (\<lambda>c. c \<noteq> CHR ''>'') t2)"
    and m: "matchFromId kind statementId (drop j t2) = Some b" by blast
  from take_takeWhile [OF j] have a: "CHR ''>'' \<notin> set (take j t2)" by blast
  from matchFromId_Some [OF m] obtain name w1 w2 q1 ident q2 attrs' body closing post where
    d: "drop j t2 = name @ w1 @ ''='' @ w2 @ [q1] @ ident @ [q2] @ attrs' @ ''>'' @ body @ closing @ post" and
    p: "ciEqual name ''id''" "list_all isSpace w1" "list_all isSpace w2"
       "isQuote q1" "isQuote q2" "ciEqual ident statementId"
       "CHR ''>'' \<notin> set attrs'" "ciEqual closing (''</'' @ kind @ ''>'')"
    by blast
  have "t2 = take j t2 @ drop j t2" by simp
  with t k(1) sp(1) d
  have "t = [] @ ''<'' @ kind @ sp @ take j t2 @ name @ w1 @ ''='' @ w2 @ [q1] @ ident @ [q2]
              @ attrs' @ ''>'' @ body @ closing @ post"
    by simp
  with k(2) sp(2,3) a p show ?thesis unfolding statementWithId_def by blast
qed

lemma statementWithId_append:
  "statementWithId same t statementId \<Longrightarrow> statementWithId same (pre @ t) statementId"
proof -
  assume "statementWithId same t statementId"
  then obtain pre' kind sp attrs name w1 w2 q1 ident q2 attrs' body closing post where
    t: "t = pre' @ ''<'' @ kind @ sp @ attrs @ name @ w1 @ ''='' @ w2 @ [q1] @ ident @ [q2]
              @ attrs' @ ''>'' @ body @ closing @ post"
    and r: "\<exists>k \<in> set [''select'', ''insert'', ''update'', ''delete'']. ciEqual kind k"
       "sp \<noteq> []" "list_all isSpace sp" "CHR ''>'' \<notin> set attrs" "ciEqual name ''id''"
       "list_all isSpace w1" "list_all isSpace w2" "isQuote q1" "isQuote q2" "same ident statementId"
       "CHR ''>'' \<notin> set attrs'" "ciEqual closing (''</'' @ kind @ ''>'')"
    unfolding statementWithId_def by blast
  from t have "pre @ t = (pre @ pre') @ ''<'' @ kind @ sp @ attrs @ name @ w1 @ ''='' @ w2 @ [q1] @ ident @ [q2]
              @ attrs' @ ''>'' @ body @ closing @ post"
    by simp
  with r show ?thesis unfolding statementWithId_def by blast
qed

lemma extractStatementContent_Some:
  assumes "extractStatementContent content statementId = Some body"
  shows "statementWithId ciEqual (removeXmlComments content) statementId"
proof -
  from assms obtain b where "firstMatch (matchStatement statementId) (removeXmlComments content) = Some b"
    by (auto simp: extractStatementContent_def)
  from firstMatch_Some [OF this] obtain pre t where
    p: "removeXmlComments content = pre @ t" and m: "matchStatement statementId t = Some b" by blast
  from statementWithId_append [OF matchStatement_Some [OF m]] p
  show ?thesis by simp
qed

lemma statementWithId_holds:
  assumes "statementWithId same doc statementId"
  shows "\<exists>a ident b. doc = a @ ident @ b \<and> same ident statementId"
proof -
  from assms obtain pre kind sp attrs name w1 w2 q1 ident q2 attrs' body closing post where
    t: "doc = pre @ ''<'' @ kind @ sp @ attrs @ name @ w1 @ ''='' @ w2 @ [q1] @ ident @ [q2]
              @ attrs' @ ''>'' @ body @ closing @ post"
    and r: "same ident statementId"
    unfolding statementWithId_def by blast
  from t have "doc = (pre @ ''<'' @ kind @ sp @ attrs @ name @ w1 @ ''='' @ w2 @ [q1]) @ ident
        @ ([q2] @ attrs' @ ''>'' @ body @ closing @ post)"
    by simp
  with r show ?thesis by blast
qed

lemma statementWithId_ci_sublist:
  assumes "statementWithId ciEqual doc statementId"
  shows "sublist (map canonicalize statementId) (map canonicalize doc)"
proof -
  from statementWithId_holds [OF assms] obtain a ident b where
    "doc = a @ ident @ b" "ciEqual ident statementId" by blast
  then have "map canonicalize doc
      = map canonicalize a @ map canonicalize statementId @ map canonicalize b"
    by (simp add: ciEqual_def)
  then show ?thesis by (simp add: sublist_def) blast
qed

lemma statementWithId_exact_sublist:
  assumes "statementWithId (=) doc statementId"
  shows "sublist statementId doc"
proof -
  from statementWithId_holds [OF assms] obtain a b where "doc = a @ statementId @ b" by blast
  then show ?thesis by (simp add: sublist_def) blast
qed

section \<open>Evaluations of the example documents\<close>

lemma cycleDoc_facts:
  \<open>extractStatementContent cycleDoc ''q'' = Some ''select 1 <include refid="a"/> where c regexp '^x$' limit 1''\<close>
  \<open>fragmentDeclarations cycleDoc
     = [(''b'', ''old $& text''), (''a'', ''<include refid="b"/>''), (''b'', ''<include refid="a"/>''),
        (''junk'', ''it's $' here'')]\<close>
  \<open>regexScan matchInclude ''select 1 <include refid="a"/> where c regexp '^x$' limit 1''
     = ([(''select 1 '', ''<include refid="a"/>'', ''a'')], '' where c regexp '^x$' limit 1'')\<close>
  \<open>regexScan matchInclude ''<include refid="b"/>'' = ([([], ''<include refid="b"/>'', ''b'')], [])\<close>
  \<open>regexScan matchInclude ''<include refid="a"/>'' = ([([], ''<include refid="a"/>'', ''a'')], [])\<close>
  \<open>composeSql 4 [''M.xml'' \<mapsto> cycleDoc] ''M.xml'' ''q''
     = (Some ''select 1 /* Circular reference detected: a */ where c regexp '^x$' limit 1'', [])\<close>
  by code_simp+

lemma cycleDoc_quiet:
  \<open>quiet ''select 1 ''\<close>
  \<open>quiet '' where c regexp '^x$' limit 1''\<close>
  by (rule inert_quiet, code_simp)+

lemma extractSqlFragments_cycleDoc:
  \<open>extractSqlFragments cycleDoc
     = [''b'' \<mapsto> ''old $& text'', ''a'' \<mapsto> ''<include refid="b"/>'', ''b'' \<mapsto> ''<include refid="a"/>'',
        ''junk'' \<mapsto> ''it's $' here'']\<close>
  by (simp add: extractSqlFragments_def cycleDoc_facts)

lemma swallowedCycleDoc_facts:
  \<open>extractStatementContent swallowedCycleDoc ''q'' = Some ''<include refid="<include refid="A"/>"/>''\<close>
  \<open>includeMatches ''<include refid="<include refid="A"/>"/>'' = [(''<include refid="A"/>'', ''A'')]\<close>
  \<open>fragmentDeclarations swallowedCycleDoc
     = [(''A'', ''<include refid="A"/>''), (''/* Circular reference detected: A */'', ''gone'')]\<close>
  \<open>includeMatches ''<include refid="A"/>'' = [(''<include refid="A"/>'', ''A'')]\<close>
  \<open>composeSql 3 [''M.xml'' \<mapsto> swallowedCycleDoc] ''M.xml'' ''q'' = (Some ''gone'', [])\<close>
  \<open>\<not> sublist (circularNote ''A'') ''gone''\<close>
  by code_simp+

lemma missingDoc_facts:
  \<open>extractStatementContent missingDoc ''q''
     = Some ''select <include refid="cols"/> from u where price = '$' and <include refid="nope"/> <if test="x">and x</if>''\<close>
  \<open>fragmentDeclarations missingDoc = [(''cols'', ''id, name''), (''junk'', ''it's $' here'')]\<close>
  \<open>regexScan matchInclude ''select <include refid="cols"/> from u where price = '$' and <include refid="nope"/> <if test="x">and x</if>''
     = ([(''select '', ''<include refid="cols"/>'', ''cols''),
         ('' from u where price = '$' and '', ''<include refid="nope"/>'', ''nope'')],
        '' <if test="x">and x</if>'')\<close>
  \<open>regexScan matchInclude ''id, name'' = ([], ''id, name'')\<close>
  \<open>composeSql 2 [''M.xml'' \<mapsto> missingDoc] ''M.xml'' ''q''
     = (Some ''select id, name from u where price = '$' and /* Fragment not found: nope */ <if test="x">and x</if>'', [])\<close>
  by code_simp+

lemma missingDoc_quiet:
  \<open>quiet ''select ''\<close>
  \<open>quiet '' from u where price = '$' and ''\<close>
  \<open>quiet '' <if test="x">and x</if>''\<close>
  \<open>quiet ''id, name''\<close>
  by (rule inert_quiet, code_simp)+

lemma extractSqlFragments_missingDoc:
  \<open>extractSqlFragments missingDoc = [''cols'' \<mapsto> ''id, name'', ''junk'' \<mapsto> ''it's $' here'']\<close>
  by (simp add: extractSqlFragments_def missingDoc_facts)

lemma swallowedMissingDoc_facts:
  \<open>extractStatementContent swallowedMissingDoc ''q'' = Some ''<include refid="<include refid="M"/>"/>''\<close>
  \<open>includeMatches ''<include refid="<include refid="M"/>"/>'' = [(''<include refid="M"/>'', ''M'')]\<close>
  \<open>fragmentDeclarations swallowedMissingDoc = [(''/* Fragment not found: M */'', ''gone'')]\<close>
  \<open>composeSql 3 [''M.xml'' \<mapsto> swallowedMissingDoc] ''M.xml'' ''q'' = (Some ''gone'', [])\<close>
  \<open>\<not> sublist (notFoundNote ''M'') ''gone''\<close>
  by code_simp+

lemma plainDoc_facts:
  "removeXmlComments plainDoc = plainDoc"
  "\<not> sublist (map canonicalize ''nonExistentStatement'') (map canonicalize plainDoc)"
  "extractStatementContent plainDoc ''selectUser'' = Some ''select id from users''"
  "includeMatches ''select id from users'' = []"
  by code_simp+

lemma caseDoc_facts:
  "removeXmlComments caseDoc = caseDoc"
  "\<not> sublist ''finduser'' caseDoc"
  "composeSql 1 [''M.xml'' \<mapsto> caseDoc] ''M.xml'' ''finduser'' = (Some ''select 1'', [])"
  by code_simp+

lemma emptyBodyDoc_facts:
  "extractStatementContent emptyBodyDoc ''s'' = Some []"
  "includeMatches [] = []"
  "composeSql 1 [''M.xml'' \<mapsto> emptyBodyDoc] ''M.xml'' ''s'' = (None, [])"
  by code_simp+

lemma dollarDoc_facts:
  \<open>fragmentDeclarations dollarDoc = [(''w'', ''where c regexp '^x$'' @ [CHR 0x27])]\<close>
  \<open>extractStatementContent dollarDoc ''q'' = Some ''select * from t <include refid="w"/> order by id''\<close>
  \<open>composeSql 2 [''M.xml'' \<mapsto> dollarDoc] ''M.xml'' ''q''
     = (Some ''select * from t where c regexp '^x order by id order by id'', [])\<close>
  by code_simp+

lemma attrDoc_facts:
  "fragmentDeclarations attrDoc = [(''cols'', ''id'')]"
  \<open>extractStatementContent attrDoc ''q'' = Some ''select <include refid="cols"/> from t''\<close>
  "composeSql 2 [''M.xml'' \<mapsto> attrDoc] ''M.xml'' ''q'' = (Some ''select id from t'', [])"
  by code_simp+

text \<open>
  The statement pattern does not ask for an attribute named \<^verbatim>\<open>id\<close>: in the document
  below the text \<^verbatim>\<open>id='foo'\<close> lies inside the value of another attribute, and the
  lookup of \<^verbatim>\<open>foo\<close> returns the statement whose id is \<^verbatim>\<open>bar\<close>.
\<close>

lemma id_text_inside_value:
  "composeSql 1 [''M.xml'' \<mapsto> valueDoc] ''M.xml'' ''foo'' = (Some ''1'', [])"
  by code_simp

section \<open>Claims\<close>

text \<open>
  C1 (as amended). Let the statement be clean and let every fragment that its markers
  lead to be tame. If the statement holds a marker from which the references between
  fragments lead to a fragment that refers, in one or more steps, to itself, then
  composing the statement returns, for every stack that is deep enough, one and the same
  text, nothing is written to the console, and the text holds the note of a circular
  reference for a fragment id that lies on a cycle. Nothing is asked of fragments that
  the statement does not reach, of declarations that a later one replaces, or of
  \<^verbatim>\<open>$\<close> in the statement.
\<close>

theorem cycle_annotated:
  assumes "extractStatementContent (readFile fs xmlFilePath) statementId = Some sql"
    and "frags = extractSqlFragments (readFile fs xmlFilePath)"
    and "clean frags sql"
    and "\<forall>b\<in>reachable frags sql. \<forall>c. frags b = Some c \<longrightarrow> tame frags c"
    and "a \<in> snd ` set (includeMatches sql)"
    and "(refersTo frags)\<^sup>*\<^sup>* a x"
    and "(refersTo frags)\<^sup>+\<^sup>+ x x"
  shows "\<exists>r y. (\<exists>N. \<forall>depth\<ge>N. composeSql depth fs xmlFilePath statementId = (Some r, []))
             \<and> (refersTo frags)\<^sup>+\<^sup>+ y y
             \<and> sublist (circularNote y) r"
proof -
  have fin: "finite (dom frags)" unfolding assms(2) by (rule extractSqlFragments_finite)
  note closed = reachable_tame_closed [OF assms(4)]
  obtain ms g where scan: "regexScan matchInclude sql = (ms, g)"
    by (cases "regexScan matchInclude sql")
  from resolve_clean [OF fin closed assms(3) reachable_ids _ scan, of "{}"]
  obtain r where r: "returns frags {} sql r" by blast
  from circular_found [OF fin closed assms(3) reachable_ids _ assms(5,6,7) r]
  obtain y where y: "(refersTo frags)\<^sup>+\<^sup>+ y y" "sublist (circularNote y) r"
    by (auto simp: sublist_def)
  from r have "returns (extractSqlFragments (readFile fs xmlFilePath)) {} sql r"
    by (simp add: assms(2))
  from composeSql_returns [OF assms(1) includeMatches_nonempty [OF assms(5)] this] y
  show ?thesis by blast
qed

theorem cycle_annotated_witness:
  \<open>(\<exists>r y. (\<exists>N. \<forall>depth\<ge>N. composeSql depth [''M.xml'' \<mapsto> cycleDoc] ''M.xml'' ''q'' = (Some r, []))
         \<and> (refersTo (extractSqlFragments cycleDoc))\<^sup>+\<^sup>+ y y
         \<and> sublist (circularNote y) r)
   \<and> composeSql 4 [''M.xml'' \<mapsto> cycleDoc] ''M.xml'' ''q''
       = (Some ''select 1 /* Circular reference detected: a */ where c regexp '^x$' limit 1'', [])\<close>
proof -
  let ?fs = "[''M.xml'' \<mapsto> cycleDoc]"
  let ?F = "extractSqlFragments cycleDoc"
  let ?sql = \<open>''select 1 <include refid="a"/> where c regexp '^x$' limit 1''\<close>
  have rf: "readFile ?fs ''M.xml'' = cycleDoc" by (simp add: readFile_def)
  have Fa: \<open>?F ''a'' = Some ''<include refid="b"/>''\<close> and Fb: \<open>?F ''b'' = Some ''<include refid="a"/>''\<close>
    by (simp_all add: extractSqlFragments_cycleDoc)
  have ids: "snd ` set (includeMatches ?sql) = {''a''}"
    \<open>snd ` set (includeMatches ''<include refid="b"/>'') = {''b''}\<close>
    \<open>snd ` set (includeMatches ''<include refid="a"/>'') = {''a''}\<close>
    by (simp_all add: includeMatches_def cycleDoc_facts del: regexScan.simps)
  have ab: "refersTo ?F ''a'' ''b''" and ba: "refersTo ?F ''b'' ''a''"
    by (simp_all add: refersTo_def Fa Fb ids)
  from ab ba have cyc: "(refersTo ?F)\<^sup>+\<^sup>+ ''a'' ''a''" by auto
  have cl: "clean ?F ?sql"
    by (simp add: clean_def cycleDoc_facts cycleDoc_quiet del: regexScan.simps)
  have ta: \<open>tame ?F ''<include refid="b"/>''\<close> and tb: \<open>tame ?F ''<include refid="a"/>''\<close>
    by (simp_all add: tame_def clean_def cycleDoc_facts quiet_Nil del: regexScan.simps)
  have "reachable ?F ?sql \<subseteq> {''a'', ''b''}"
    by (rule reachable_least) (auto simp: ids Fa Fb)
  then have rt: "\<forall>b\<in>reachable ?F ?sql. \<forall>c. ?F b = Some c \<longrightarrow> tame ?F c"
    using ta tb Fa Fb by auto
  have a: "''a'' \<in> snd ` set (includeMatches ?sql)" by (simp add: ids)
  from cycle_annotated [of ?fs "''M.xml''" "''q''" ?sql ?F "''a''" "''a''"] cl rt a cyc
  show ?thesis by (simp add: rf cycleDoc_facts)
qed

text \<open>
  The claim as stated, for every fragment map, fails: the text a pass builds is scanned
  again, so a note can become part of a new marker. Here fragment \<open>A\<close> includes itself
  and the statement reaches it, yet the composed text is \<^verbatim>\<open>gone\<close>.
\<close>

theorem cycle_annotation_swallowed:
  \<open>extractStatementContent swallowedCycleDoc ''q'' = Some ''<include refid="<include refid="A"/>"/>''
   \<and> ''A'' \<in> snd ` set (includeMatches ''<include refid="<include refid="A"/>"/>'')
   \<and> refersTo (extractSqlFragments swallowedCycleDoc) ''A'' ''A''
   \<and> composeSql 3 [''M.xml'' \<mapsto> swallowedCycleDoc] ''M.xml'' ''q'' = (Some ''gone'', [])
   \<and> \<not> sublist (circularNote ''A'') ''gone''\<close>
  by (simp add: swallowedCycleDoc_facts refersTo_def extractSqlFragments_map_of)

text \<open>
  C2 (as amended). Let the statement be clean, let every fragment that its markers lead
  to be tame, and let the statement hold a marker whose id the fragment map does not
  hold. Then composing the statement returns, for every stack that is deep enough, one
  and the same text and writes nothing to the console. The text is the statement with
  every marker replaced in place and everything outside the markers kept: the marker of
  a fragment with content is replaced by what resolving that content returns, every
  marker of the missing id by the note that names it.
\<close>

theorem missing_fragment_annotated:
  assumes "extractStatementContent (readFile fs xmlFilePath) statementId = Some sql"
    and "frags = extractSqlFragments (readFile fs xmlFilePath)"
    and "clean frags sql"
    and "\<forall>b\<in>reachable frags sql. \<forall>c. frags b = Some c \<longrightarrow> tame frags c"
    and "regexScan matchInclude sql = (ms, g)"
    and "(gap, tag, refId) \<in> set ms"
    and "frags refId = None"
  shows "\<exists>r xs. (\<exists>N. \<forall>depth\<ge>N. composeSql depth fs xmlFilePath statementId = (Some r, []))
              \<and> r = substituted ms xs g
              \<and> list_all2 (\<lambda>(gap, tag, refId) x. markerText frags {} refId x) ms xs
              \<and> (\<forall>i<length ms. snd (snd (ms ! i)) = refId \<longrightarrow> xs ! i = notFoundNote refId)
              \<and> sublist (notFoundNote refId) r"
proof -
  have fin: "finite (dom frags)" unfolding assms(2) by (rule extractSqlFragments_finite)
  note closed = reachable_tame_closed [OF assms(4)]
  from resolve_clean [OF fin closed assms(3) reachable_ids _ assms(5), of "{}"]
  obtain r xs where r: "returns frags {} sql r"
    and mt: "list_all2 (\<lambda>(gap, tag, refId) x. markerText frags {} refId x) ms xs"
    and sub: "r = substituted ms xs g" by blast
  from mt have len: "length xs = length ms" by (simp add: list_all2_lengthD)
  have nf: "xs ! i = notFoundNote refId" if lt: "i < length ms" and eq: "snd (snd (ms ! i)) = refId" for i
  proof -
    obtain gap' tag' where "ms ! i = (gap', tag', refId)" using eq by (cases "ms ! i") auto
    with list_all2_nthD [OF mt lt] assms(7) show ?thesis by (simp add: markerText_def)
  qed
  from assms(6) obtain i where i: "i < length ms" "ms ! i = (gap, tag, refId)"
    by (auto simp: in_set_conv_nth)
  with nf have "xs ! i = notFoundNote refId" by simp
  with substituted_contains [OF len i(1), of g] sub have sl: "sublist (notFoundNote refId) r"
    by (auto simp: sublist_def)
  have ne: "sql \<noteq> []" using assms(5,6) by auto
  from r have "returns (extractSqlFragments (readFile fs xmlFilePath)) {} sql r"
    by (simp add: assms(2))
  from composeSql_returns [OF assms(1) ne this] sub mt nf sl show ?thesis by blast
qed

theorem missing_fragment_annotated_witness:
  \<open>(\<exists>r xs. (\<exists>N. \<forall>depth\<ge>N. composeSql depth [''M.xml'' \<mapsto> missingDoc] ''M.xml'' ''q'' = (Some r, []))
          \<and> r = substituted [(''select '', ''<include refid="cols"/>'', ''cols''),
                              ('' from u where price = '$' and '', ''<include refid="nope"/>'', ''nope'')]
                   xs '' <if test="x">and x</if>''
          \<and> list_all2 (\<lambda>(gap, tag, refId) x. markerText (extractSqlFragments missingDoc) {} refId x)
               [(''select '', ''<include refid="cols"/>'', ''cols''),
                ('' from u where price = '$' and '', ''<include refid="nope"/>'', ''nope'')] xs
          \<and> (\<forall>i<length [(''select '', ''<include refid="cols"/>'', ''cols''),
                         ('' from u where price = '$' and '', ''<include refid="nope"/>'', ''nope'')].
                snd (snd ([(''select '', ''<include refid="cols"/>'', ''cols''),
                           ('' from u where price = '$' and '', ''<include refid="nope"/>'', ''nope'')] ! i)) = ''nope''
                \<longrightarrow> xs ! i = notFoundNote ''nope'')
          \<and> sublist (notFoundNote ''nope'') r)
   \<and> composeSql 2 [''M.xml'' \<mapsto> missingDoc] ''M.xml'' ''q''
       = (Some ''select id, name from u where price = '$' and /* Fragment not found: nope */ <if test="x">and x</if>'', [])\<close>
proof -
  let ?fs = "[''M.xml'' \<mapsto> missingDoc]"
  let ?F = "extractSqlFragments missingDoc"
  let ?sql = \<open>''select <include refid="cols"/> from u where price = '$' and <include refid="nope"/> <if test="x">and x</if>''\<close>
  let ?ms = \<open>[(''select '', ''<include refid="cols"/>'', ''cols''),
              ('' from u where price = '$' and '', ''<include refid="nope"/>'', ''nope'')]\<close>
  let ?g = \<open>'' <if test="x">and x</if>''\<close>
  have rf: "readFile ?fs ''M.xml'' = missingDoc" by (simp add: readFile_def)
  have Fc: "?F ''cols'' = Some ''id, name''" and Fn: "?F ''nope'' = None"
    by (simp_all add: extractSqlFragments_missingDoc)
  have ids: "snd ` set (includeMatches ?sql) = {''cols'', ''nope''}"
    "snd ` set (includeMatches ''id, name'') = {}"
    by (simp_all add: includeMatches_def missingDoc_facts del: regexScan.simps)
  have cl: "clean ?F ?sql"
    by (simp add: clean_def missingDoc_facts missingDoc_quiet del: regexScan.simps)
  have tc: "tame ?F ''id, name''"
    by (simp add: tame_def clean_def missingDoc_facts missingDoc_quiet del: regexScan.simps)
  have "reachable ?F ?sql \<subseteq> {''cols'', ''nope''}"
    by (rule reachable_least) (auto simp: ids Fc Fn)
  then have rt: "\<forall>b\<in>reachable ?F ?sql. \<forall>c. ?F b = Some c \<longrightarrow> tame ?F c"
    using tc Fc Fn by auto
  have scan: "regexScan matchInclude ?sql = (?ms, ?g)" by (rule missingDoc_facts(3))
  have mem: \<open>('' from u where price = '$' and '', ''<include refid="nope"/>'', ''nope'') \<in> set ?ms\<close>
    by simp
  from missing_fragment_annotated [of ?fs "''M.xml''" "''q''" ?sql ?F ?ms ?g _ _ "''nope''",
      OF _ _ cl rt scan mem Fn]
  show ?thesis by (simp add: rf missingDoc_facts(1,5))
qed

text \<open>
  The claim as stated, for every statement, fails for the same reason as C1: the note
  written for the missing id \<open>M\<close> ends up inside a second marker, whose id is declared.
\<close>

theorem missing_annotation_swallowed:
  \<open>extractStatementContent swallowedMissingDoc ''q'' = Some ''<include refid="<include refid="M"/>"/>''
   \<and> ''M'' \<in> snd ` set (includeMatches ''<include refid="<include refid="M"/>"/>'')
   \<and> extractSqlFragments swallowedMissingDoc ''M'' = None
   \<and> composeSql 3 [''M.xml'' \<mapsto> swallowedMissingDoc] ''M.xml'' ''q'' = (Some ''gone'', [])
   \<and> \<not> sublist (notFoundNote ''M'') ''gone''\<close>
  by (simp add: swallowedMissingDoc_facts extractSqlFragments_def)

text \<open>
  C3 (as amended). When the comment-stripped document holds no text that the statement
  pattern matches for the id, \<^const>\<open>composeSql\<close> returns \<^verbatim>\<open>null\<close> and writes
  nothing, whatever the stack allows. Such a text is an opening select, insert, update
  or delete tag in which, before its \<^verbatim>\<open>>\<close>, the text \<^verbatim>\<open>id\<close>, \<^verbatim>\<open>=\<close> and the quoted
  statement id occur, with letters in either case, followed by a closing tag of the same
  kind. The text \<^verbatim>\<open>id\<close> need not be the name of an attribute: it may end a longer
  name, or stand inside the quoted value of another attribute.
\<close>

theorem absent_statement_null:
  assumes "\<not> statementWithId ciEqual (removeXmlComments (readFile fs xmlFilePath)) statementId"
  shows "composeSql depth fs xmlFilePath statementId = (None, [])"
proof -
  have "extractStatementContent (readFile fs xmlFilePath) statementId = None"
    using assms extractStatementContent_Some by (cases "extractStatementContent (readFile fs xmlFilePath) statementId") auto
  then show ?thesis by (simp add: composeSql_def)
qed

theorem absent_statement_null_witness:
  "\<not> statementWithId ciEqual (removeXmlComments plainDoc) ''nonExistentStatement''
   \<and> composeSql 4 [''M.xml'' \<mapsto> plainDoc] ''M.xml'' ''nonExistentStatement'' = (None, [])"
proof -
  have rf: "readFile [''M.xml'' \<mapsto> plainDoc] ''M.xml'' = plainDoc" by (simp add: readFile_def)
  have n: "\<not> statementWithId ciEqual (removeXmlComments plainDoc) ''nonExistentStatement''"
    using statementWithId_ci_sublist [of plainDoc "''nonExistentStatement''"] plainDoc_facts(1,2)
    by auto
  with absent_statement_null [of "[''M.xml'' \<mapsto> plainDoc]" "''M.xml''" "''nonExistentStatement''" 4]
  show ?thesis by (simp add: rf)
qed

text \<open>
  The claim as stated fails, because the statement pattern carries the \<^verbatim>\<open>i\<close>
  flag: \<^verbatim>\<open>finduser\<close> is the id of no statement of the document, and its lookup
  returns the statement \<^verbatim>\<open>FindUser\<close>.
\<close>

theorem statement_id_matched_ignoring_case:
  "\<not> statementWithId (=) (removeXmlComments caseDoc) ''finduser''
   \<and> composeSql 1 [''M.xml'' \<mapsto> caseDoc] ''M.xml'' ''finduser'' = (Some ''select 1'', [])"
  using statementWithId_exact_sublist [of caseDoc "''finduser''"] caseDoc_facts by auto

text \<open>
  C4. The claim: a marker of a fragment that exists and is not being expanded is
  replaced by exactly the expanded content of the fragment. The code passes the
  expanded content to \<^verbatim>\<open>String.prototype.replace\<close> as a replacement string, in
  which \<^verbatim>\<open>$'\<close> stands for the text after the match: the fragment
  \<^verbatim>\<open>where c regexp '^x$'\<close> loses its last two characters and gains a copy of the
  rest of the statement.
\<close>

theorem dollar_quote_in_fragment:
  \<open>extractSqlFragments dollarDoc ''w'' = Some (''where c regexp '^x$'' @ [CHR 0x27])
   \<and> extractStatementContent dollarDoc ''q'' = Some ''select * from t <include refid="w"/> order by id''
   \<and> composeSql 2 [''M.xml'' \<mapsto> dollarDoc] ''M.xml'' ''q''
       = (Some ''select * from t where c regexp '^x order by id order by id'', [])\<close>
  using dollarDoc_facts by (simp add: extractSqlFragments_map_of)

text \<open>
  C5. With fragment \<open>A\<close> holding \<^verbatim>\<open>x, y\<close>, fragment \<open>B\<close> holding the inclusion of
  \<open>A\<close> followed by \<^verbatim>\<open>, z\<close>, and the statement body \<^verbatim>\<open>select\<close>, the inclusion of
  \<open>B\<close>, \<^verbatim>\<open>from t\<close>, the statement composes to \<^verbatim>\<open>select x, y, z from t\<close>,
  whatever else the document declares and for every stack of depth three or more.
\<close>

theorem nested_scenario:
  assumes "frags ''A'' = Some nestedA" and "frags ''B'' = Some nestedB"
  shows "resolveIncludes (3 + depth) nestedS frags {} = Some ''select x, y, z from t''"
proof -
  have a: "resolveIncludes (Suc depth) nestedA frags {''A'', ''B''} = Some nestedA"
    by (simp add: includeMatches_nested)
  have b: "resolveIncludes (Suc (Suc depth)) nestedB frags {''B''} = Some ''x, y, z''"
    unfolding resolveIncludes_unfold [of "Suc depth"]
    using a assms(1)
    by (simp add: includeMatches_nested replaceInclude_def jsReplace_nested insert_commute nested_nonempty
        del: resolveIncludes.simps)
  have "resolveIncludes (Suc (Suc (Suc depth))) nestedS frags {} = Some ''select x, y, z from t''"
    unfolding resolveIncludes_unfold [of "Suc (Suc depth)"]
    using b assms(2)
    by (simp add: includeMatches_nested replaceInclude_def jsReplace_nested nested_nonempty
        del: resolveIncludes.simps)
  then show ?thesis by (simp add: numeral_3_eq_3 del: resolveIncludes.simps)
qed

theorem nested_scenario_witness:
  "extractSqlFragments nestedDoc ''A'' = Some nestedA
   \<and> extractSqlFragments nestedDoc ''B'' = Some nestedB
   \<and> composeSql 3 [''M.xml'' \<mapsto> nestedDoc] ''M.xml'' ''S'' = (Some ''select x, y, z from t'', [])"
  using nested_scenario [of "extractSqlFragments nestedDoc" 0] nestedDoc_parts
  by (simp add: composeSql_def readFile_def nestedS_def del: resolveIncludes.simps)

text \<open>
  C6. When the mapping document cannot be read, \<^const>\<open>composeSql\<close> returns
  \<^verbatim>\<open>null\<close> for every statement id, whatever the stack allows, and writes nothing:
  the failure is not an exception and leaves no trace.
\<close>

theorem composeSql_unreadable:
  "fs xmlFilePath = None \<Longrightarrow> composeSql depth fs xmlFilePath statementId = (None, [])"
  by (simp add: composeSql_def readFile_def extractStatementContent_empty)

theorem composeSql_unreadable_witness:
  "Map.empty ''/missing/UserMapper.xml'' = None
   \<and> composeSql 7 Map.empty ''/missing/UserMapper.xml'' ''selectById'' = (None, [])"
  using composeSql_unreadable [of Map.empty "''/missing/UserMapper.xml''" 7 "''selectById''"]
  by simp

text \<open>
  C7. The claim: when a document declares a fragment id more than once, extraction maps
  the id to the content of the last declaration. The pattern of
  \<^verbatim>\<open>extractSqlFragments\<close> reads a declaration only when \<^verbatim>\<open>id\<close> is the first
  attribute of the \<^verbatim>\<open><sql\<close> tag, whereas the pattern of the definition provider
  (\<^verbatim>\<open><sql[^>]+id\<close>) and the statement pattern (\<^verbatim>\<open>[^>]*id\<close>) accept attributes in
  front of it. The document below declares \<^verbatim>\<open>cols\<close> twice, the second time with
  \<^verbatim>\<open>databaseId\<close> in front of \<^verbatim>\<open>id\<close>: the second declaration is not read, the map
  keeps the content of the first, and the statement composes with it.
\<close>

theorem later_declaration_not_read:
  "fragmentDeclarations attrDoc = [(''cols'', ''id'')]
   \<and> extractSqlFragments attrDoc ''cols'' = Some ''id''
   \<and> composeSql 2 [''M.xml'' \<mapsto> attrDoc] ''M.xml'' ''q'' = (Some ''select id from t'', [])"
  using attrDoc_facts by (simp add: extractSqlFragments_def)

text \<open>
  C8. Comment stripping preserves the number of lines: for every input, the text
  returned by \<^const>\<open>removeXmlComments\<close> holds exactly as many newline characters as
  the input.
\<close>

theorem removeXmlComments_preserves_newlines:
  "newlineCount (removeXmlComments content) = newlineCount content"
proof (cases "content = []")
  case True
  then show ?thesis by (simp add: removeXmlComments_def)
next
  case False
  obtain ms g where r: "regexScan matchComment content = (ms, g)"
    by (cases "regexScan matchComment content")
  have "content = concat (map (\<lambda>(gap, x). gap @ x) ms) @ g"
    by (rule regexScan_concat [OF matchComment_Some r])
  then have "newlineCount content
      = newlineCount (concat (map (\<lambda>(gap, x). gap @ x) ms)) + newlineCount g"
    by (metis newlineCount_append)
  then show ?thesis
    using False r by (simp add: removeXmlComments_def newlineCount_append newlineCount_pieces)
qed

text \<open>
  C9. A cache of capacity \<open>n\<close> that receives \<open>n + 1\<close> distinct keys, with no read in
  between, holds \<open>n\<close> entries afterwards; the first key is absent and every later key
  is present with its value. With capacity 2 and the keys \<open>k1\<close>, \<open>k2\<close>, \<open>k3\<close>, \<open>k1\<close> is
  evicted and \<open>k2\<close>, \<open>k3\<close> remain.
\<close>

theorem lru_bound:
  assumes "distinct (map fst (first # later))" and "length later = n"
  shows "lruSize (putAll (first # later) (emptyCache n)) = n
       \<and> fst (lruGet (fst first) (putAll (first # later) (emptyCache n))) = None
       \<and> (\<forall>(k, v) \<in> set later. fst (lruGet k (putAll (first # later) (emptyCache n))) = Some v)"
proof -
  let ?c = "putAll (first # later) (emptyCache n)"
  have e: "entries ?c = rev later"
    using putAll_entries [OF assms(1), of n] assms(2) by simp
  have d: "distinct (map fst (rev later))" using assms(1) by (simp add: distinct_rev rev_map [symmetric])
  have 1: "lruSize ?c = n" by (simp add: lruSize_def e assms(2))
  have "map_of (rev later) (fst first) = None"
    using assms(1) by (auto simp: map_of_eq_None_iff)
  then have 2: "fst (lruGet (fst first) ?c) = None" by (simp add: lruGet_def e)
  have 3: "fst (lruGet k ?c) = Some v" if "(k, v) \<in> set later" for k v
  proof -
    from that d have "map_of (rev later) k = Some v" by (simp add: map_of_is_SomeI)
    then show ?thesis by (simp add: lruGet_def e)
  qed
  from 1 2 3 show ?thesis by auto
qed

theorem lru_bound_witness:
  "distinct (map fst [(''k1'', 1::nat), (''k2'', 2), (''k3'', 3)])
   \<and> length [(''k2'', 2::nat), (''k3'', 3)] = 2
   \<and> lruSize (putAll [(''k1'', 1::nat), (''k2'', 2), (''k3'', 3)] (emptyCache 2)) = 2
   \<and> fst (lruGet ''k1'' (putAll [(''k1'', 1::nat), (''k2'', 2), (''k3'', 3)] (emptyCache 2))) = None
   \<and> fst (lruGet ''k2'' (putAll [(''k1'', 1::nat), (''k2'', 2), (''k3'', 3)] (emptyCache 2))) = Some 2
   \<and> fst (lruGet ''k3'' (putAll [(''k1'', 1::nat), (''k2'', 2), (''k3'', 3)] (emptyCache 2))) = Some 3"
  using lru_bound [of "(''k1'', 1::nat)" "[(''k2'', 2), (''k3'', 3)]" 2]
  by simp

text \<open>
  C10 (as amended). On a text no part of which is an inclusion marker
  \<^const>\<open>resolveIncludes\<close> returns the text itself, for every fragment map, every set
  of visited ids and every stack that allows the call; and a statement whose trimmed
  body holds no marker and is not empty composes to that body.
\<close>

theorem marker_free_unchanged:
  assumes "\<not> holdsMarker sql"
  shows "resolveIncludes (Suc depth) sql frags visited = Some sql
       \<and> (extractStatementContent (readFile fs xmlFilePath) statementId = Some sql \<and> sql \<noteq> []
            \<longrightarrow> composeSql (Suc depth) fs xmlFilePath statementId = (Some sql, []))"
proof -
  from assms includeMatches_holdsMarker have "includeMatches sql = []" by blast
  then show ?thesis by (simp add: composeSql_def)
qed

theorem marker_free_unchanged_witness:
  "\<not> holdsMarker ''select id from users''
   \<and> resolveIncludes (Suc 0) ''select id from users'' Map.empty {} = Some ''select id from users''
   \<and> composeSql (Suc 0) [''M.xml'' \<mapsto> plainDoc] ''M.xml'' ''selectUser''
       = (Some ''select id from users'', [])"
proof -
  have n: "\<not> holdsMarker ''select id from users''"
    using holdsMarker_lt [of "''select id from users''"] by auto
  with marker_free_unchanged [of "''select id from users''" 0 Map.empty "{}"
      "[''M.xml'' \<mapsto> plainDoc]" "''M.xml''" "''selectUser''"] plainDoc_facts(3)
  show ?thesis by (simp add: readFile_def del: resolveIncludes.simps)
qed

text \<open>
  The claim as stated fails for a statement with an empty body: \<^verbatim>\<open>composeSql\<close>
  treats an empty body like a missing statement and returns \<^verbatim>\<open>null\<close>.
\<close>

theorem empty_statement_composes_to_null:
  "extractStatementContent emptyBodyDoc ''s'' = Some []
   \<and> includeMatches [] = []
   \<and> composeSql 1 [''M.xml'' \<mapsto> emptyBodyDoc] ''M.xml'' ''s'' = (None, [])"
  by (intro conjI) (rule emptyBodyDoc_facts)+
end
